theory Spec2Isabelle
  imports Complex_Main
begin

section \<open>The FMD sharing filter (AliFMDSharingFilter)\<close>

text \<open>
  A shallow embedding of \<^verbatim>\<open>AliFMDSharingFilter\<close>: the dead-strip bookkeeping
  (\<^verbatim>\<open>AddDead\<close>, \<^verbatim>\<open>IsDead\<close>), the angle corrections, \<^verbatim>\<open>SignalInStrip\<close> and the
  merging pass \<^verbatim>\<open>Filter\<close>.

  Detector, sector and strip numbers (\<^verbatim>\<open>UShort_t\<close>) are natural numbers: the code only
  compares them and adds 1 or 2 after integer promotion, so nothing wraps. The ring
  letter is a \<^verbatim>\<open>Char_t\<close>. \<^verbatim>\<open>Float_t\<close> and \<^verbatim>\<open>Double_t\<close> are the real numbers:
  rounding, infinities and NaN have no counterpart here, and a division by zero (which
  C++ answers with an infinity or NaN) is the real division of HOL.

  The fills of the diagnostic histograms have no effect on the output object and are
  left out; the counters \<^verbatim>\<open>nSingle\<close>, \<^verbatim>\<open>nDouble\<close>, \<^verbatim>\<open>nTriple\<close> are kept.
\<close>

subsection \<open>Data\<close>

type_synonym addr = "nat \<times> char \<times> nat \<times> nat"

text \<open>
  The ESD object as \<^verbatim>\<open>Filter\<close> uses it, given by what its methods
  \<^verbatim>\<open>Multiplicity(d,r,s,t)\<close>, \<^verbatim>\<open>Eta(d,r,s,t)\<close> and \<^verbatim>\<open>IsAngleCorrected()\<close> return.
  \<^verbatim>\<open>Phi\<close> is read for histograms only.
\<close>

record AliESDFMD =
  Multiplicity :: "addr \<Rightarrow> real"
  Eta :: "addr \<Rightarrow> real"
  IsAngleCorrected :: bool

text \<open>
  What the file uses and does not define is a parameter of the model:
  the constant \<^verbatim>\<open>AliESDFMD::kInvalidMult\<close>, \<^verbatim>\<open>AliFMDStripIndex::Pack\<close>,
  \<^verbatim>\<open>AliForwardUtil::GetEtaFromStrip\<close>, \<^verbatim>\<open>AliESDFMD::Clear\<close>, and the layout of
  the eta map of \<^verbatim>\<open>AliESDFMD\<close>: \<open>EtaCell a\<close> names the cell of the map in which
  the eta of the strip address \<open>a\<close> is kept. A map with one eta for every strip
  address has \<open>EtaCell a = a\<close>; a map with one eta for every strip of a ring, shared by
  the sectors, has \<open>EtaCell (d, r, s, t) = (d, r, 0, t)\<close>.
\<close>

record externals =
  kInvalidMult :: real
  Pack :: "nat \<Rightarrow> char \<Rightarrow> nat \<Rightarrow> nat \<Rightarrow> nat"
  GetEtaFromStrip :: "nat \<Rightarrow> char \<Rightarrow> nat \<Rightarrow> nat \<Rightarrow> real \<Rightarrow> real"
  EtaCell :: "addr \<Rightarrow> addr"
  Clear :: "AliESDFMD \<Rightarrow> AliESDFMD"

text \<open>
  \<^verbatim>\<open>SetMultiplicity(d,r,s,t,v)\<close> stores under the strip address.
  \<^verbatim>\<open>SetEta(d,r,s,t,v)\<close> stores into the cell of the address: afterwards \<^verbatim>\<open>Eta\<close>
  returns \<open>v\<close> at every address kept in that cell, and what it returned before at the
  others.
\<close>

definition SetMultiplicity ::
  "AliESDFMD \<Rightarrow> nat \<Rightarrow> char \<Rightarrow> nat \<Rightarrow> nat \<Rightarrow> real \<Rightarrow> AliESDFMD" where
  "SetMultiplicity e d r s t v = e\<lparr>Multiplicity := (Multiplicity e)((d, r, s, t) := v)\<rparr>"

definition SetEta ::
  "externals \<Rightarrow> AliESDFMD \<Rightarrow> nat \<Rightarrow> char \<Rightarrow> nat \<Rightarrow> nat \<Rightarrow> real \<Rightarrow> AliESDFMD" where
  "SetEta X e d r s t v =
     e\<lparr>Eta := (\<lambda>a. if EtaCell X a = EtaCell X (d, r, s, t) then v else Eta e a)\<rparr>"

text \<open>
  The filter object. \<^verbatim>\<open>fXtraDead\<close> (a \<^verbatim>\<open>TBits\<close>) is the set of the bit numbers that
  are set. \<^verbatim>\<open>fLCuts\<close> and \<^verbatim>\<open>fHCuts\<close> (\<^verbatim>\<open>AliFMDMultCuts\<close>) are given by their method
  \<^verbatim>\<open>GetMultCut(d,r,eta,errors)\<close>.
\<close>

record AliFMDSharingFilter =
  fCorrectAngles :: bool
  fThreeStripSharing :: bool
  fRecalculateEta :: bool
  fInvalidIsEmpty :: bool
  fXtraDead :: "nat set"
  fLCuts :: "nat \<Rightarrow> char \<Rightarrow> real \<Rightarrow> bool \<Rightarrow> real"
  fHCuts :: "nat \<Rightarrow> char \<Rightarrow> real \<Rightarrow> bool \<Rightarrow> real"

subsection \<open>Dead strips\<close>

datatype warning =
  InvalidDetector nat
  | InvalidRing nat char
  | InvalidSector nat char nat
  | InvalidStrip nat char nat nat

text \<open>
  \<^verbatim>\<open>AddDead(d,r,s,t)\<close>: the warning issued, if any, and the filter afterwards.
\<close>

definition AddDead ::
  "externals \<Rightarrow> AliFMDSharingFilter \<Rightarrow> nat \<Rightarrow> char \<Rightarrow> nat \<Rightarrow> nat \<Rightarrow> warning option \<times> AliFMDSharingFilter" where
  "AddDead X F d r s t =
     (if d < 1 \<or> d > 3 then (Some (InvalidDetector d), F)
      else let inner = (r = CHR ''I'' \<or> r = CHR ''i'') in
        if d = 1 \<and> \<not> inner then (Some (InvalidRing d r), F)
        else if (inner \<and> s \<ge> 20) \<or> (\<not> inner \<and> s \<ge> 40) then (Some (InvalidSector d r s), F)
        else if (inner \<and> t \<ge> 512) \<or> (\<not> inner \<and> t \<ge> 256) then (Some (InvalidStrip d r s t), F)
        else let id = Pack X d r s t in
          (None, F\<lparr>fXtraDead := insert id (fXtraDead F)\<rparr>))"

definition IsDead :: "externals \<Rightarrow> AliFMDSharingFilter \<Rightarrow> nat \<Rightarrow> char \<Rightarrow> nat \<Rightarrow> nat \<Rightarrow> bool" where
  "IsDead X F d r s t = (let id = Pack X d r s t in id \<in> fXtraDead F)"

text \<open>The address checks of \<^verbatim>\<open>AddDead\<close>, in the words of the claim.\<close>

definition malformed :: "nat \<Rightarrow> char \<Rightarrow> nat \<Rightarrow> nat \<Rightarrow> bool" where
  "malformed d r s t =
     (let inner = (r = CHR ''I'' \<or> r = CHR ''i'') in
        d < 1 \<or> d > 3 \<or> (d = 1 \<and> \<not> inner)
        \<or> (if inner then s \<ge> 20 else s \<ge> 40)
        \<or> (if inner then t \<ge> 512 else t \<ge> 256))"

subsection \<open>Angle corrections and signals\<close>

definition ETA2COS :: "real \<Rightarrow> real" where
  "ETA2COS ETA = cos (2 * arctan (exp (- \<bar>ETA\<bar>)))"

text \<open>
  \<^verbatim>\<open>AngleCorrect\<close> and \<^verbatim>\<open>DeAngleCorrect\<close> derive the incidence angle by the same two
  statements; \<open>theta_of\<close> is that angle.
\<close>

definition theta_of :: "real \<Rightarrow> real" where
  "theta_of eta =
     (let theta = 2 * arctan (exp (- eta)) in
      if eta < 0 then theta - pi else theta)"

definition AngleCorrect :: "real \<Rightarrow> real \<Rightarrow> real" where
  "AngleCorrect mult eta = mult * cos (theta_of eta)"

definition DeAngleCorrect :: "real \<Rightarrow> real \<Rightarrow> real" where
  "DeAngleCorrect mult eta = mult / cos (theta_of eta)"

definition SignalInStrip ::
  "externals \<Rightarrow> AliFMDSharingFilter \<Rightarrow> AliESDFMD \<Rightarrow> nat \<Rightarrow> char \<Rightarrow> nat \<Rightarrow> nat \<Rightarrow> real" where
  "SignalInStrip X F input d r s t =
     (let mult = Multiplicity input (d, r, s, t) in
      if mult = kInvalidMult X \<or> mult = 0
         \<or> (fCorrectAngles F \<and> IsAngleCorrected input)
         \<or> (\<not> fCorrectAngles F \<and> \<not> IsAngleCorrected input)
      then mult
      else if fCorrectAngles F then AngleCorrect mult (Eta input (d, r, s, t))
      else DeAngleCorrect mult (Eta input (d, r, s, t)))"

definition GetLowCut :: "AliFMDSharingFilter \<Rightarrow> nat \<Rightarrow> char \<Rightarrow> real \<Rightarrow> real" where
  "GetLowCut F d r eta = fLCuts F d r eta False"

definition GetHighCut :: "AliFMDSharingFilter \<Rightarrow> nat \<Rightarrow> char \<Rightarrow> real \<Rightarrow> bool \<Rightarrow> real" where
  "GetHighCut F d r eta errors = fHCuts F d r eta errors"

subsection \<open>The merging pass\<close>

text \<open>
  The values a strip iteration works with once the strip has been read
  (the statements from the read of \<^verbatim>\<open>mult\<close> to the dead-channel check):
  \<^verbatim>\<open>mult\<close>, \<^verbatim>\<open>multNext\<close>, \<^verbatim>\<open>multNextNext\<close> and \<^verbatim>\<open>eta\<close>. The look-ahead values are 0
  past the end of the sector and for an invalid strip, \<^verbatim>\<open>multNextNext\<close> also when
  three-strip merging is off; \<^verbatim>\<open>mult\<close> is \<^verbatim>\<open>kInvalidMult\<close> for an invalid or dead strip.
  (\<^verbatim>\<open>t < nstr-1\<close> is evaluated on promoted integers, so it is \<open>t + 1 < nstr\<close>.)
\<close>

record strip_vars =
  s_mult :: real
  s_multNext :: real
  s_multNextNext :: real
  s_eta :: real

definition read_strip ::
  "externals \<Rightarrow> AliFMDSharingFilter \<Rightarrow> AliESDFMD \<Rightarrow> real \<Rightarrow> nat \<Rightarrow> char \<Rightarrow> nat \<Rightarrow> nat \<Rightarrow> nat \<Rightarrow> strip_vars" where
  "read_strip X F input zvtx d r s nstr t =
     (let mult = SignalInStrip X F input d r s t;
          multNext = (if t + 1 < nstr then SignalInStrip X F input d r s (t + 1) else 0);
          multNextNext = (if t + 2 < nstr then SignalInStrip X F input d r s (t + 2) else 0);
          multNext = (if multNext = kInvalidMult X then 0 else multNext);
          multNextNext = (if multNextNext = kInvalidMult X then 0 else multNextNext);
          multNextNext = (if \<not> fThreeStripSharing F then 0 else multNextNext);
          eta = Eta input (d, r, s, t);
          v = (if fRecalculateEta F then
                 (let etaOld = eta;
                      etaCalc = GetEtaFromStrip X d r s t zvtx in
                  if mult > 0 \<and> mult \<noteq> kInvalidMult X then
                    (let cosOld = ETA2COS etaOld;
                         cosNew = ETA2COS etaCalc;
                         corr = cosNew / cosOld in
                     \<lparr>s_mult = mult * corr, s_multNext = multNext * corr,
                      s_multNextNext = multNextNext * corr, s_eta = etaCalc\<rparr>)
                  else \<lparr>s_mult = mult, s_multNext = multNext,
                        s_multNextNext = multNextNext, s_eta = etaCalc\<rparr>)
               else \<lparr>s_mult = mult, s_multNext = multNext,
                     s_multNextNext = multNextNext, s_eta = eta\<rparr>);
          v = (if s_mult v = kInvalidMult X \<and> fInvalidIsEmpty F then v\<lparr>s_mult := 0\<rparr> else v)
      in if s_mult v = kInvalidMult X \<or> IsDead X F d r s t
         then v\<lparr>s_mult := kInvalidMult X\<rparr> else v)"

text \<open>
  A record of the clusters the pass forms, kept beside the counters: the kind, the
  address of the strip at which the cluster is finalised, and the amplitude written to
  the output. \<open>KSingle\<close>, \<open>KDoubleNext\<close> (this strip and the next one, stored at
  once), \<open>KDoublePrev\<close> (the pending sum of the previous and this strip) and
  \<open>KTriple\<close> are recorded where the code fills \<^verbatim>\<open>fSingle\<close>, \<^verbatim>\<open>fDouble\<close> and
  \<^verbatim>\<open>fTriple\<close>; \<open>KFlushed\<close> is a pending sum stored at the previous strip when the
  scan meets an empty or dead strip.
\<close>

datatype kind = KSingle | KDoubleNext | KDoublePrev | KTriple | KFlushed

record cluster =
  c_kind :: kind
  c_det :: nat
  c_ring :: char
  c_sec :: nat
  c_strip :: nat
  c_amp :: real

text \<open>
  The state of the pass: the locals of the sector loop (\<^verbatim>\<open>used\<close>, \<^verbatim>\<open>eTotal\<close>,
  \<^verbatim>\<open>twoLow\<close>), the output object, the counters and the record of clusters.
\<close>

record pass =
  used :: bool
  eTotal :: real
  twoLow :: bool
  outp :: AliESDFMD
  nSingle :: int
  nDouble :: int
  nTriple :: int
  clusters :: "cluster list"

text \<open>
  The merging decision for a strip that carries a signal (from the computation of
  \<^verbatim>\<open>thisValid\<close> to the end of the \<^verbatim>\<open>if (eTotal > 0) ... else ...\<close> statement).
  \<open>Continue\<close> is the \<^verbatim>\<open>continue\<close> of a strip marked used; \<open>Merged etot k\<close> gives the
  value of \<^verbatim>\<open>etot\<close> at the end and the kind of the cluster finalised, if any.
\<close>

datatype outcome = Continue | Merged real "kind option"

definition merge :: "AliFMDSharingFilter \<Rightarrow> nat \<Rightarrow> char \<Rightarrow> strip_vars \<Rightarrow> pass \<Rightarrow> outcome \<times> pass" where
  "merge F d r v st =
     (let thisValid = s_mult v > GetLowCut F d r (s_eta v);
          nextValid = s_multNext v > GetLowCut F d r (s_eta v);
          thisSmall = s_mult v < GetHighCut F d r (s_eta v) False;
          nextSmall = s_multNext v < GetHighCut F d r (s_eta v) False
      in
      if eTotal st > 0 then
        (if fThreeStripSharing F \<and> nextValid \<and> (nextSmall \<or> twoLow st) then
           (let eTot = eTotal st + s_multNext v in
            (Merged eTot (Some KTriple),
             st\<lparr>eTotal := - 1, used := True, nTriple := nTriple st + 1, twoLow := False\<rparr>))
         else
           (Merged (eTotal st) (Some KDoublePrev),
            st\<lparr>eTotal := - 1, used := False, nDouble := nDouble st + 1\<rparr>))
      else if used st then (Continue, st\<lparr>used := False\<rparr>)
      else
        (let etot = (if thisValid then s_mult v else 0) in
         if thisValid \<and> nextValid \<and> (thisSmall \<or> nextSmall) then
           (let st = (if thisSmall \<and> nextSmall then st\<lparr>twoLow := True\<rparr> else st) in
            if s_mult v > s_multNext v \<and> s_multNextNext v < GetLowCut F d r (s_eta v) then
              (Merged (s_mult v + s_multNext v) (Some KDoubleNext),
               st\<lparr>used := True, nDouble := nDouble st + 1\<rparr>)
            else
              (Merged 0 None, st\<lparr>eTotal := s_mult v + s_multNext v\<rparr>))
         else if etot > 0 then
           (Merged etot (Some KSingle), st\<lparr>nSingle := nSingle st + 1\<rparr>)
         else (Merged etot None, st)))"

text \<open>
  One iteration of the strip loop (the body of \<^verbatim>\<open>for (t = 0; t < nstr; t++)\<close>): the
  output of the strip is zeroed, eta is copied for sector 0, an invalid or dead strip is
  marked; an empty or dead strip flushes a pending sum to the previous strip and resets
  the locals; any other strip is merged and, unless skipped, written.
\<close>

definition strip_step ::
  "externals \<Rightarrow> AliFMDSharingFilter \<Rightarrow> AliESDFMD \<Rightarrow> real \<Rightarrow> nat \<Rightarrow> char \<Rightarrow> nat \<Rightarrow> nat \<Rightarrow> nat \<Rightarrow> pass \<Rightarrow> pass" where
  "strip_step X F input zvtx d r s nstr t st =
     (let v = read_strip X F input zvtx d r s nstr t;
          out = SetMultiplicity (outp st) d r s t 0;
          out = (if s = 0 then SetEta X out d r s t (Eta input (d, r, s, t)) else out);
          out = (if s_mult v = kInvalidMult X
                 then SetMultiplicity out d r s t (kInvalidMult X) else out);
          cl = (\<lambda>k a. \<lparr>c_kind = k, c_det = d, c_ring = r, c_sec = s, c_strip = t, c_amp = a\<rparr>)
      in
      if s_mult v = kInvalidMult X \<or> s_mult v = 0 then
        (if eTotal st > 0 \<and> t > 0
         then st\<lparr>outp := SetMultiplicity out d r s (t - 1) (eTotal st),
                 eTotal := - 1, used := False, twoLow := False,
                 clusters := clusters st @ [cl KFlushed (eTotal st)]\<rparr>
         else st\<lparr>outp := out, eTotal := - 1, used := False, twoLow := False\<rparr>)
      else
        (case merge F d r v st of
           (Continue, st') \<Rightarrow> st'\<lparr>outp := out\<rparr>
         | (Merged etot k, st') \<Rightarrow>
             (let mergedEnergy =
                    (if \<not> fCorrectAngles F then AngleCorrect etot (s_eta v) else etot)
              in st'\<lparr>outp := SetMultiplicity out d r s t mergedEnergy,
                     clusters := (case k of None \<Rightarrow> clusters st'
                                  | Some kd \<Rightarrow> clusters st' @ [cl kd mergedEnergy])\<rparr>)))"

text \<open>The sector loop body: the locals are initialised, then the strips are scanned.\<close>

definition sector_init :: "pass \<Rightarrow> pass" where
  "sector_init st = st\<lparr>used := False, eTotal := - 1, twoLow := False\<rparr>"

definition Filter_sector ::
  "externals \<Rightarrow> AliFMDSharingFilter \<Rightarrow> AliESDFMD \<Rightarrow> real \<Rightarrow> nat \<Rightarrow> char \<Rightarrow> nat \<Rightarrow> nat \<Rightarrow> pass \<Rightarrow> pass" where
  "Filter_sector X F input zvtx d r nstr s st =
     fold (strip_step X F input zvtx d r s nstr) [0..<nstr] (sector_init st)"

definition ring_of :: "nat \<Rightarrow> char" where
  "ring_of q = (if q = 0 then CHR ''I'' else CHR ''O'')"

definition nsec_of :: "nat \<Rightarrow> nat" where
  "nsec_of q = (if q = 0 then 20 else 40)"

definition nstr_of :: "nat \<Rightarrow> nat" where
  "nstr_of q = (if q = 0 then 512 else 256)"

definition Filter_ring ::
  "externals \<Rightarrow> AliFMDSharingFilter \<Rightarrow> AliESDFMD \<Rightarrow> real \<Rightarrow> nat \<Rightarrow> nat \<Rightarrow> pass \<Rightarrow> pass" where
  "Filter_ring X F input zvtx d q st =
     (let r = ring_of q; nsec = nsec_of q; nstr = nstr_of q in
      fold (Filter_sector X F input zvtx d r nstr) [0..<nsec] st)"

definition Filter_detector ::
  "externals \<Rightarrow> AliFMDSharingFilter \<Rightarrow> AliESDFMD \<Rightarrow> real \<Rightarrow> nat \<Rightarrow> pass \<Rightarrow> pass" where
  "Filter_detector X F input zvtx d st =
     (let nRings = (if d = 1 then 1 else 2) in
      fold (Filter_ring X F input zvtx d) [0..<nRings] st)"

text \<open>
  \<^verbatim>\<open>Filter(input, lowFlux, output, zvtx)\<close>: the output object is cleared, the counters
  start at 0, the detectors 1 to 3 are scanned. \<open>Filter_pass\<close> is the state at the end,
  \<open>Filter\<close> the returned value with the output object.
\<close>

definition Filter_pass ::
  "externals \<Rightarrow> AliFMDSharingFilter \<Rightarrow> AliESDFMD \<Rightarrow> bool \<Rightarrow> AliESDFMD \<Rightarrow> real \<Rightarrow> pass" where
  "Filter_pass X F input lowFlux out zvtx =
     fold (Filter_detector X F input zvtx) [1..<4]
       \<lparr>used = False, eTotal = - 1, twoLow = False, outp = Clear X out,
        nSingle = 0, nDouble = 0, nTriple = 0, clusters = []\<rparr>"

definition Filter ::
  "externals \<Rightarrow> AliFMDSharingFilter \<Rightarrow> AliESDFMD \<Rightarrow> bool \<Rightarrow> AliESDFMD \<Rightarrow> real \<Rightarrow> bool \<times> AliESDFMD" where
  "Filter X F input lowFlux out zvtx =
     (True, outp (Filter_pass X F input lowFlux out zvtx))"

subsection \<open>Notions used in the statements and proofs\<close>

text \<open>The locals of the sector loop, taken together.\<close>

definition ctl :: "pass \<Rightarrow> bool \<times> real \<times> bool" where
  "ctl st = (used st, eTotal st, twoLow st)"

text \<open>The test \<^verbatim>\<open>mult == AliESDFMD::kInvalidMult || mult == 0\<close> of the strip loop.\<close>

definition noise :: "externals \<Rightarrow> strip_vars \<Rightarrow> bool" where
  "noise X v = (s_mult v = kInvalidMult X \<or> s_mult v = 0)"

text \<open>Two input objects carry the same signal and eta at a strip.\<close>

definition same_strip :: "AliESDFMD \<Rightarrow> AliESDFMD \<Rightarrow> nat \<Rightarrow> char \<Rightarrow> nat \<Rightarrow> nat \<Rightarrow> bool" where
  "same_strip A B d r s j =
     (Multiplicity A (d, r, s, j) = Multiplicity B (d, r, s, j)
      \<and> Eta A (d, r, s, j) = Eta B (d, r, s, j))"

text \<open>
  The strips the loops of \<^verbatim>\<open>Filter\<close> visit: detector \<open>d\<close>, ring number \<open>q\<close> (ring
  letter \<open>ring_of q\<close>), sector \<open>s\<close>, strip \<open>t\<close>.
\<close>

definition scanned :: "nat \<Rightarrow> nat \<Rightarrow> nat \<Rightarrow> nat \<Rightarrow> bool" where
  "scanned d q s t =
     (1 \<le> d \<and> d \<le> 3 \<and> q < (if d = 1 then 1 else 2) \<and> s < nsec_of q \<and> t < nstr_of q)"

text \<open>
  No strip of a sector 0 that \<^verbatim>\<open>Filter\<close> scans keeps its eta in the cell of the
  address \<open>a\<close>.
\<close>

definition eta_untouched :: "externals \<Rightarrow> addr \<Rightarrow> bool" where
  "eta_untouched X a =
     (\<forall>d q t. scanned d q 0 t \<longrightarrow> EtaCell X (d, ring_of q, 0, t) \<noteq> EtaCell X a)"

text \<open>
  Strip \<open>t\<close> of sector 0 of ring \<open>q\<close> of detector \<open>d\<close> shares its eta cell with no
  other strip of a sector 0 that \<^verbatim>\<open>Filter\<close> scans.
\<close>

definition eta_cell_own :: "externals \<Rightarrow> nat \<Rightarrow> nat \<Rightarrow> nat \<Rightarrow> bool" where
  "eta_cell_own X d q t =
     (\<forall>d' q' t'. scanned d' q' 0 t'
        \<and> EtaCell X (d', ring_of q', 0, t') = EtaCell X (d, ring_of q, 0, t)
        \<longrightarrow> d' = d \<and> q' = q \<and> t' = t)"

text \<open>The strip at which the amplitude of a cluster is stored.\<close>

definition emit_strip :: "cluster \<Rightarrow> nat" where
  "emit_strip c = (if c_kind c = KFlushed then c_strip c - 1 else c_strip c)"

text \<open>The strips a cluster is made of.\<close>

definition strips_of :: "cluster \<Rightarrow> nat list" where
  "strips_of c =
     (case c_kind c of
        KSingle \<Rightarrow> [c_strip c]
      | KDoubleNext \<Rightarrow> [c_strip c, c_strip c + 1]
      | KDoublePrev \<Rightarrow> [c_strip c - 1, c_strip c]
      | KTriple \<Rightarrow> [c_strip c - 1, c_strip c, c_strip c + 1]
      | KFlushed \<Rightarrow> [c_strip c - 1, c_strip c])"

text \<open>The clusters that begin at the strip before the one where they are finalised.\<close>

definition starts_before :: "cluster \<Rightarrow> bool" where
  "starts_before c = (c_kind c = KDoublePrev \<or> c_kind c = KTriple \<or> c_kind c = KFlushed)"

text \<open>
  What the pass leaves at a strip it does not write an amplitude to: \<^verbatim>\<open>kInvalidMult\<close> for an
  invalid or dead strip, 0 otherwise.
\<close>

definition neighbour_value ::
  "externals \<Rightarrow> AliFMDSharingFilter \<Rightarrow> AliESDFMD \<Rightarrow> real \<Rightarrow> nat \<Rightarrow> char \<Rightarrow> nat \<Rightarrow> nat \<Rightarrow> nat \<Rightarrow> real" where
  "neighbour_value X F input zvtx d r s nstr p =
     (if s_mult (read_strip X F input zvtx d r s nstr p) = kInvalidMult X then kInvalidMult X else 0)"

text \<open>
  The output holds the cluster on its strips below \<open>b\<close>: the amplitude at one strip, the
  neighbour value at the others.
\<close>

definition cluster_written ::
  "externals \<Rightarrow> AliFMDSharingFilter \<Rightarrow> AliESDFMD \<Rightarrow> real \<Rightarrow> AliESDFMD \<Rightarrow> nat \<Rightarrow> nat \<Rightarrow> cluster \<Rightarrow> bool" where
  "cluster_written X F input zvtx out nstr b c =
     (\<forall>p\<in>set (strips_of c). p < b \<longrightarrow>
        Multiplicity out (c_det c, c_ring c, c_sec c, p) =
          (if p = emit_strip c then c_amp c
           else neighbour_value X F input zvtx (c_det c) (c_ring c) (c_sec c) nstr p))"

text \<open>The entry the strip iteration adds to the record of clusters.\<close>

definition the_cluster :: "kind \<Rightarrow> nat \<Rightarrow> char \<Rightarrow> nat \<Rightarrow> nat \<Rightarrow> real \<Rightarrow> cluster" where
  "the_cluster k d r s t a = \<lparr>c_kind = k, c_det = d, c_ring = r, c_sec = s, c_strip = t, c_amp = a\<rparr>"

text \<open>
  What holds of the locals before strip \<open>t\<close> is examined: a strip marked used goes with
  no pending sum, and a pending sum goes with a 0 at the previous strip, which carried a
  signal.
\<close>

definition ctl_inv ::
  "externals \<Rightarrow> AliFMDSharingFilter \<Rightarrow> AliESDFMD \<Rightarrow> real \<Rightarrow> nat \<Rightarrow> char \<Rightarrow> nat \<Rightarrow> nat \<Rightarrow> nat \<Rightarrow> pass \<Rightarrow> bool" where
  "ctl_inv X F input zvtx d r s nstr t st =
     ((used st \<longrightarrow> \<not> 0 < eTotal st)
      \<and> (0 < eTotal st \<longrightarrow>
            1 \<le> t \<and> Multiplicity (outp st) (d, r, s, t - 1) = 0
            \<and> \<not> noise X (read_strip X F input zvtx d r s nstr (t - 1))))"

text \<open>
  A cluster that takes in the next strip finds that strip in the sector, unless the low
  cut is negative there.
\<close>

definition reaches_next ::
  "externals \<Rightarrow> AliFMDSharingFilter \<Rightarrow> AliESDFMD \<Rightarrow> real \<Rightarrow> nat \<Rightarrow> cluster \<Rightarrow> bool" where
  "reaches_next X F input zvtx nstr c =
     (c_kind c = KDoubleNext \<or> c_kind c = KTriple \<longrightarrow>
        c_strip c + 1 < nstr
        \<or> GetLowCut F (c_det c) (c_ring c)
             (s_eta (read_strip X F input zvtx (c_det c) (c_ring c) (c_sec c) nstr (c_strip c))) < 0)"

text \<open>
  A cluster of the sector being scanned, before strip \<open>t\<close> is examined.
\<close>

definition progress ::
  "externals \<Rightarrow> AliFMDSharingFilter \<Rightarrow> AliESDFMD \<Rightarrow> real \<Rightarrow> nat \<Rightarrow> nat \<Rightarrow> pass \<Rightarrow> cluster \<Rightarrow> bool" where
  "progress X F input zvtx nstr t st c =
     (c_strip c < t \<and> (starts_before c \<longrightarrow> 1 \<le> c_strip c)
      \<and> reaches_next X F input zvtx nstr c
      \<and> cluster_written X F input zvtx (outp st) nstr t c
      \<and> (\<forall>p\<in>set (strips_of c). (t \<le> p \<longrightarrow> p = t \<and> used st) \<and> (0 < eTotal st \<longrightarrow> p + 1 < t)))"

text \<open>A cluster at the end of the scan of its sector.\<close>

definition cluster_ok ::
  "externals \<Rightarrow> AliFMDSharingFilter \<Rightarrow> AliESDFMD \<Rightarrow> real \<Rightarrow> AliESDFMD \<Rightarrow> nat \<Rightarrow> cluster \<Rightarrow> bool" where
  "cluster_ok X F input zvtx out q c =
     (c_ring c = ring_of q \<and> scanned (c_det c) q (c_sec c) (c_strip c)
      \<and> (starts_before c \<longrightarrow> 1 \<le> c_strip c)
      \<and> reaches_next X F input zvtx (nstr_of q) c
      \<and> cluster_written X F input zvtx out (nstr_of q) (nstr_of q) c)"

text \<open>The sectors scanned before sector \<open>s\<close> of ring \<open>q\<close> of detector \<open>d\<close>.\<close>

definition done_before :: "nat \<Rightarrow> nat \<Rightarrow> nat \<Rightarrow> (nat \<times> char \<times> nat) set" where
  "done_before d q s =
     {(d', r', s'). d' < d \<or> (d' = d \<and> ((\<exists>q'<q. r' = ring_of q') \<or> (r' = ring_of q \<and> s' < s)))}"

text \<open>
  Every cluster recorded so far lies in a sector of \<open>S\<close> and is as it should be.
\<close>

definition sectors_ok ::
  "externals \<Rightarrow> AliFMDSharingFilter \<Rightarrow> AliESDFMD \<Rightarrow> real \<Rightarrow> (nat \<times> char \<times> nat) set \<Rightarrow> pass \<Rightarrow> bool" where
  "sectors_ok X F input zvtx S st =
     (\<forall>c\<in>set (clusters st).
        (c_det c, c_ring c, c_sec c) \<in> S \<and> (\<exists>q. cluster_ok X F input zvtx (outp st) q c))"

text \<open>The invariant of the strip loop.\<close>

definition scan_inv ::
  "externals \<Rightarrow> AliFMDSharingFilter \<Rightarrow> AliESDFMD \<Rightarrow> real \<Rightarrow> nat \<Rightarrow> nat \<Rightarrow> nat \<Rightarrow> nat \<Rightarrow> pass \<Rightarrow> bool" where
  "scan_inv X F input zvtx d q s t st =
     (ctl_inv X F input zvtx d (ring_of q) s (nstr_of q) t st
      \<and> (\<forall>c\<in>set (clusters st).
            if (c_det c, c_ring c, c_sec c) = (d, ring_of q, s)
            then progress X F input zvtx (nstr_of q) t st c
            else (c_det c, c_ring c, c_sec c) \<in> done_before d q s
                 \<and> (\<exists>q'. cluster_ok X F input zvtx (outp st) q' c)))"

subsection \<open>Concrete inputs\<close>

text \<open>
  Inputs for the examples below: \<^verbatim>\<open>kInvalidMult\<close> is 1000, the strip index packs the
  address injectively, the eta map keeps one eta for every strip of a ring (the sector
  is ignored), \<^verbatim>\<open>Clear\<close> sets every multiplicity to 1000 and every eta to
  10000000000, the cuts are 0.15 and 0.6 everywhere, signals are taken as
  angle corrected and eta is not recalculated. \<open>esd_of xs\<close> carries the signals
  \<open>xs\<close> on the first strips of every sector and 0 on the others, with eta 2.
\<close>

definition ex_X :: externals where
  "ex_X = \<lparr>kInvalidMult = 1000,
           Pack = (\<lambda>d r s t. t + 512 * s
                     + 65536 * (if r = CHR ''I'' \<or> r = CHR ''i'' then 0 else 1) + 131072 * d),
           GetEtaFromStrip = (\<lambda>d r s t z. 2),
           EtaCell = (\<lambda>(d, r, s, t). (d, r, 0, t)),
           Clear = (\<lambda>e. e\<lparr>Multiplicity := (\<lambda>a. 1000), Eta := (\<lambda>a. 10000000000)\<rparr>)\<rparr>"

definition ex_F :: AliFMDSharingFilter where
  "ex_F = \<lparr>fCorrectAngles = True, fThreeStripSharing = True, fRecalculateEta = False,
           fInvalidIsEmpty = False, fXtraDead = {},
           fLCuts = (\<lambda>d r e b. 0.15), fHCuts = (\<lambda>d r e b. 0.6)\<rparr>"

definition esd_of :: "real list \<Rightarrow> AliESDFMD" where
  "esd_of xs = \<lparr>Multiplicity = (\<lambda>(d, r, s, t). if t < length xs then xs ! t else 0),
                Eta = (\<lambda>a. 2), IsAngleCorrected = True\<rparr>"

definition ex_st :: pass where
  "ex_st = \<lparr>used = False, eTotal = - 1, twoLow = False, outp = esd_of [],
            nSingle = 0, nDouble = 0, nTriple = 0, clusters = []\<rparr>"

definition ex_F_dead :: AliFMDSharingFilter where
  "ex_F_dead = ex_F\<lparr>fXtraDead := {Pack ex_X 1 CHR ''I'' 0 1}\<rparr>"

definition ex_F_dead0 :: AliFMDSharingFilter where
  "ex_F_dead0 = ex_F\<lparr>fXtraDead := {Pack ex_X 1 CHR ''I'' 0 0}\<rparr>"

definition ex_F_raw :: AliFMDSharingFilter where
  "ex_F_raw = ex_F\<lparr>fCorrectAngles := False\<rparr>"

text \<open>A strip iteration, and the values it reads, in sector 0 of ring FMD1i.\<close>

definition ex_step :: "AliFMDSharingFilter \<Rightarrow> AliESDFMD \<Rightarrow> nat \<Rightarrow> pass \<Rightarrow> pass" where
  "ex_step F input t st = strip_step ex_X F input 0 1 CHR ''I'' 0 512 t st"

definition ex_read :: "AliFMDSharingFilter \<Rightarrow> AliESDFMD \<Rightarrow> nat \<Rightarrow> strip_vars" where
  "ex_read F input t = read_strip ex_X F input 0 1 CHR ''I'' 0 512 t"

definition ex_in_rise :: AliESDFMD where
  "ex_in_rise = esd_of [0.3, 0.5, 0.2]"

definition ex_in_fall :: AliESDFMD where
  "ex_in_fall = esd_of [0.5, 0.3, 0.1]"

definition ex_in_one :: AliESDFMD where
  "ex_in_one = esd_of [0.5]"

definition ex_in_mark :: AliESDFMD where
  "ex_in_mark = ex_in_rise\<lparr>Multiplicity := (Multiplicity ex_in_rise)((1, CHR ''I'', 0, 9) := 0.7)\<rparr>"

definition ex_in_stale :: AliESDFMD where
  "ex_in_stale = esd_of [0.5, 0.3, 0.1, 0.5, 0.9, 0.9]"

definition ex_in_fresh :: AliESDFMD where
  "ex_in_fresh = esd_of [0, 0, 0.1, 0.5, 0.9, 0.9]"

definition ex_in_raw :: AliESDFMD where
  "ex_in_raw = (esd_of [0.5])\<lparr>IsAngleCorrected := False\<rparr>"

text \<open>The same with an eta map that keeps one eta for every strip address.\<close>

definition ex_X_addr :: externals where
  "ex_X_addr = ex_X\<lparr>EtaCell := (\<lambda>a. a)\<rparr>"

text \<open>An input that differs from \<open>ex_in_rise\<close> outside the strips that are scanned.\<close>

definition ex_in_off :: AliESDFMD where
  "ex_in_off = ex_in_rise\<lparr>Multiplicity := (Multiplicity ex_in_rise)((7, CHR ''I'', 0, 0) := 0.7)\<rparr>"

text \<open>The double formed at strip 0 of the first sector by the signals 0.5, 0.3, 0.1.\<close>

definition ex_double :: cluster where
  "ex_double = \<lparr>c_kind = KDoubleNext, c_det = 1, c_ring = CHR ''I'', c_sec = 0, c_strip = 0,
                c_amp = 0.8\<rparr>"

lemmas ex_defs = ex_X_def ex_F_def esd_of_def ex_st_def ex_F_dead_def ex_F_raw_def
  ex_step_def ex_read_def ex_in_rise_def ex_in_fall_def ex_in_one_def ex_in_raw_def
  ex_F_dead0_def ex_in_mark_def ex_in_stale_def ex_in_fresh_def

lemmas step_defs = strip_step_def merge_def read_strip_def SignalInStrip_def IsDead_def
  GetLowCut_def GetHighCut_def SetMultiplicity_def SetEta_def Let_def

lemma ex_F_cuts:
  "fThreeStripSharing ex_F" "fCorrectAngles ex_F"
  "GetLowCut ex_F d r e = 0.15" "GetHighCut ex_F d r e b = 0.6"
  by (simp_all add: ex_F_def GetLowCut_def GetHighCut_def)

section \<open>Dead strips: AddDead and IsDead\<close>

text \<open>
  C8. \<^verbatim>\<open>AddDead(d,r,s,t)\<close> with a malformed address (detector outside 1..3, outer ring
  on detector 1, sector at least 20 on an inner or 40 on an outer ring, strip at least
  512 on an inner or 256 on an outer ring) issues a warning and leaves the dead-strip
  set unchanged; for a well-formed address, \<^verbatim>\<open>IsDead(d,r,s,t)\<close> is true afterwards.
\<close>

theorem AddDead_IsDead:
  "if malformed d r s t
   then fst (AddDead X F d r s t) \<noteq> None \<and> snd (AddDead X F d r s t) = F
   else fst (AddDead X F d r s t) = None \<and> IsDead X (snd (AddDead X F d r s t)) d r s t"
  by (auto simp: AddDead_def IsDead_def malformed_def Let_def)

theorem AddDead_IsDead_witness:
  "malformed 4 CHR ''I'' 0 0
   \<and> fst (AddDead ex_X ex_F 4 CHR ''I'' 0 0) \<noteq> None
   \<and> snd (AddDead ex_X ex_F 4 CHR ''I'' 0 0) = ex_F
   \<and> \<not> malformed 2 CHR ''O'' 39 255
   \<and> fst (AddDead ex_X ex_F 2 CHR ''O'' 39 255) = None
   \<and> IsDead ex_X (snd (AddDead ex_X ex_F 2 CHR ''O'' 39 255)) 2 CHR ''O'' 39 255"
proof -
  have m: "malformed 4 CHR ''I'' 0 0" by (simp add: malformed_def)
  have w: "\<not> malformed 2 CHR ''O'' 39 255" by (simp add: malformed_def)
  show ?thesis
    using m w AddDead_IsDead [of 4 "CHR ''I''" 0 0 ex_X ex_F]
      AddDead_IsDead [of 2 "CHR ''O''" 39 255 ex_X ex_F]
    by simp
qed

section \<open>Angle corrections\<close>

lemma theta_pos_cos:
  assumes "0 < e"
  shows "0 < cos (theta_of e)" and "cos (theta_of e) < 1"
proof -
  have lt1: "exp (- e) < 1" using assms by simp
  have "arctan (exp (- e)) < arctan 1" using lt1 by (simp only: arctan_less_iff)
  then have up: "2 * arctan (exp (- e)) < pi / 2" by (simp add: arctan_one)
  have lo: "0 < 2 * arctan (exp (- e))" by simp
  have th: "theta_of e = 2 * arctan (exp (- e))" using assms by (simp add: theta_of_def)
  have lo': "- (pi / 2) < 2 * arctan (exp (- e))" using lo pi_gt_zero by linarith
  show "0 < cos (theta_of e)" unfolding th using lo' up by (rule cos_gt_zero_pi)
  have up': "2 * arctan (exp (- e)) \<le> pi" using up pi_gt_zero by linarith
  have "cos (2 * arctan (exp (- e))) < cos 0"
    using lo up' by (intro cos_monotone_0_pi) auto
  then show "cos (theta_of e) < 1" unfolding th by simp
qed

lemma cos_theta_2: "3 / 10 < cos (theta_of 2)"
proof -
  define y :: real where "y = exp (- 2)"
  have y0: "0 < y" by (simp add: y_def)
  have "1 + 2 \<le> exp (2::real)" by (rule exp_ge_add_one_self)
  then have e3: "3 \<le> exp (2::real)" by simp
  have "y * exp 2 = 1" unfolding y_def by (simp add: exp_minus)
  then have "y * 3 \<le> 1" using e3 y0 by (metis mult_left_mono less_eq_real_def)
  then have y1: "y \<le> 1 / 3" by simp
  have th: "theta_of 2 = 2 * arctan y" by (simp add: theta_of_def y_def)
  have "cos (2 * arctan y) = (cos (arctan y))\<^sup>2 - (sin (arctan y))\<^sup>2"
    by (rule cos_double)
  also have "\<dots> = 1 / (1 + y\<^sup>2) - y\<^sup>2 / (1 + y\<^sup>2)"
    by (simp add: cos_arctan sin_arctan power_divide)
  finally have c: "cos (theta_of 2) = (1 - y\<^sup>2) / (1 + y\<^sup>2)"
    unfolding th by (simp add: diff_divide_distrib)
  have "y * y \<le> (1 / 3) * (1 / 3)" using y0 y1 by (intro mult_mono) simp_all
  then have y2: "y\<^sup>2 \<le> 1 / 9" by (simp add: power2_eq_square)
  have p: "0 < 1 + y\<^sup>2" by (simp add: add_pos_nonneg)
  have "3 / 10 * (1 + y\<^sup>2) < 1 - y\<^sup>2" using y2 by simp
  then show ?thesis unfolding c using p by (simp add: pos_less_divide_eq)
qed

lemma AngleCorrect_half_2: "15 / 100 < AngleCorrect (1 / 2) 2" "AngleCorrect (1 / 2) 2 < 1 / 2"
  using cos_theta_2 theta_pos_cos(2) [of 2] by (simp_all add: AngleCorrect_def)

text \<open>
  C10. \<^verbatim>\<open>AngleCorrect\<close> and \<^verbatim>\<open>DeAngleCorrect\<close> are mutually inverse wherever the cosine
  of the incidence angle derived from eta is not zero (over the reals).
\<close>

theorem AngleCorrect_inverse:
  "cos (theta_of e) \<noteq> 0 \<Longrightarrow>
     DeAngleCorrect (AngleCorrect m e) e = m \<and> AngleCorrect (DeAngleCorrect m e) e = m"
  by (simp add: AngleCorrect_def DeAngleCorrect_def)

theorem AngleCorrect_inverse_witness:
  "cos (theta_of 2) \<noteq> 0
   \<and> DeAngleCorrect (AngleCorrect 3 2) 2 = 3 \<and> AngleCorrect (DeAngleCorrect 3 2) 2 = 3"
proof -
  have h: "cos (theta_of 2) \<noteq> 0" using theta_pos_cos(1) [of 2] by simp
  show ?thesis using h AngleCorrect_inverse [OF h, of 3] by simp
qed

section \<open>The merging pass\<close>

text \<open>
  C7. \<^verbatim>\<open>Filter\<close> never fails: whatever the input object, the vertex and the filter
  configuration, it returns true.
\<close>

theorem Filter_returns_true:
  "fst (Filter X F input lowFlux out zvtx) = True"
  by (simp add: Filter_def)

section \<open>One strip iteration\<close>

text \<open>
  C1 (amended). At a strip that carries a signal (\<^verbatim>\<open>mult\<close> neither 0 nor
  \<^verbatim>\<open>kInvalidMult\<close>, so neither empty, invalid nor flagged dead), when a pending sum
  exists (\<^verbatim>\<open>eTotal > 0\<close>): the next strip is added as a third strip exactly when
  three-strip merging is enabled, \<^verbatim>\<open>multNext\<close> is above the low cut and \<^verbatim>\<open>multNext\<close>
  is below the high cut or \<^verbatim>\<open>twoLow\<close> is set (then the next strip is marked used and
  a triple is counted); otherwise the pending sum is finalised as a double. In both
  cases the sum is written at the current strip and \<^verbatim>\<open>eTotal\<close> is reset to -1.
\<close>

theorem pending_sum:
  assumes "eTotal st > 0"
    and "s_mult (read_strip X F input zvtx d r s nstr t) \<noteq> kInvalidMult X"
    and "s_mult (read_strip X F input zvtx d r s nstr t) \<noteq> 0"
  shows "let v = read_strip X F input zvtx d r s nstr t;
             third = (fThreeStripSharing F \<and> s_multNext v > GetLowCut F d r (s_eta v)
                      \<and> (s_multNext v < GetHighCut F d r (s_eta v) False \<or> twoLow st));
             etot = (if third then eTotal st + s_multNext v else eTotal st);
             written = (if fCorrectAngles F then etot else AngleCorrect etot (s_eta v));
             st' = strip_step X F input zvtx d r s nstr t st
         in Multiplicity (outp st') (d, r, s, t) = written
            \<and> eTotal st' = - 1
            \<and> used st' = third
            \<and> nTriple st' = (if third then nTriple st + 1 else nTriple st)
            \<and> nDouble st' = (if third then nDouble st else nDouble st + 1)
            \<and> clusters st' = clusters st @
                 [\<lparr>c_kind = (if third then KTriple else KDoublePrev), c_det = d, c_ring = r,
                   c_sec = s, c_strip = t, c_amp = written\<rparr>]"
  using assms
  by (simp add: strip_step_def merge_def Let_def SetMultiplicity_def SetEta_def)

theorem pending_sum_witness:
  "0 < eTotal (ex_step ex_F ex_in_rise 0 ex_st)
   \<and> s_mult (ex_read ex_F ex_in_rise 1) \<noteq> kInvalidMult ex_X
   \<and> s_mult (ex_read ex_F ex_in_rise 1) \<noteq> 0
   \<and> Multiplicity (outp (ex_step ex_F ex_in_rise 1 (ex_step ex_F ex_in_rise 0 ex_st)))
        (1, CHR ''I'', 0, 1) = 1
   \<and> used (ex_step ex_F ex_in_rise 1 (ex_step ex_F ex_in_rise 0 ex_st))"
proof -
  have et: "eTotal (ex_step ex_F ex_in_rise 0 ex_st) = 0.8"
    by (simp add: step_defs ex_defs)
  have h1: "0 < eTotal (ex_step ex_F ex_in_rise 0 ex_st)"
    unfolding et by simp
  have r: "ex_read ex_F ex_in_rise 1
           = \<lparr>s_mult = 0.5, s_multNext = 0.2, s_multNextNext = 0, s_eta = 2\<rparr>"
    by (simp add: step_defs ex_defs)
  have h2: "s_mult (ex_read ex_F ex_in_rise 1) \<noteq> kInvalidMult ex_X"
    unfolding r by (simp add: ex_X_def)
  have h3: "s_mult (ex_read ex_F ex_in_rise 1) \<noteq> 0"
    unfolding r by simp
  have "Multiplicity (outp (ex_step ex_F ex_in_rise 1 (ex_step ex_F ex_in_rise 0 ex_st)))
          (1, CHR ''I'', 0, 1) = 1
        \<and> used (ex_step ex_F ex_in_rise 1 (ex_step ex_F ex_in_rise 0 ex_st))"
    using pending_sum [of "ex_step ex_F ex_in_rise 0 ex_st" ex_X ex_F ex_in_rise
        0 1 "CHR ''I''" 0 512 1, OF h1 [unfolded ex_read_def] h2 [unfolded ex_read_def]
        h3 [unfolded ex_read_def]]
    unfolding ex_read_def [symmetric] ex_step_def [symmetric] r Let_def
    by (simp add: et ex_F_cuts)
  then show ?thesis using h1 h2 h3 by simp
qed

text \<open>
  The claim as stated fails at a strip flagged dead: with the signals 0.3 and 0.5 on
  strips 0 and 1 and strip 1 flagged dead, the sum 0.8 is pending at strip 1, but strip 1
  receives \<^verbatim>\<open>kInvalidMult\<close> and the sum is stored at strip 0.
\<close>

theorem pending_sum_counterexample:
  "0 < eTotal (ex_step ex_F_dead ex_in_rise 0 ex_st)
   \<and> eTotal (ex_step ex_F_dead ex_in_rise 0 ex_st) = 0.8
   \<and> s_multNext (ex_read ex_F_dead ex_in_rise 1) = 0.2
   \<and> Multiplicity (outp (ex_step ex_F_dead ex_in_rise 1 (ex_step ex_F_dead ex_in_rise 0 ex_st)))
        (1, CHR ''I'', 0, 1) = 1000
   \<and> Multiplicity (outp (ex_step ex_F_dead ex_in_rise 1 (ex_step ex_F_dead ex_in_rise 0 ex_st)))
        (1, CHR ''I'', 0, 0) = 0.8"
  by (simp add: step_defs ex_defs)

text \<open>
  C2 (amended). At a strip that carries a signal (\<^verbatim>\<open>mult\<close> neither 0 nor
  \<^verbatim>\<open>kInvalidMult\<close>), with no pending sum and not marked used: a two-strip merge is
  started exactly when \<^verbatim>\<open>mult\<close> and \<^verbatim>\<open>multNext\<close> are above the low cut and one of
  them is below the high cut. Then, if \<^verbatim>\<open>mult > multNext\<close> and \<^verbatim>\<open>multNextNext\<close> is
  below the low cut, the double \<^verbatim>\<open>mult + multNext\<close> is written at once at the current
  strip and the next strip is marked used; otherwise \<^verbatim>\<open>eTotal = mult + multNext\<close> is
  recorded and 0 is written. When no merge is started, \<^verbatim>\<open>eTotal\<close> and \<^verbatim>\<open>used\<close> stay
  as they are.
\<close>

theorem fresh_strip_merge:
  assumes "\<not> eTotal st > 0" and "\<not> used st"
    and "s_mult (read_strip X F input zvtx d r s nstr t) \<noteq> kInvalidMult X"
    and "s_mult (read_strip X F input zvtx d r s nstr t) \<noteq> 0"
  shows "let v = read_strip X F input zvtx d r s nstr t;
             low = GetLowCut F d r (s_eta v);
             high = GetHighCut F d r (s_eta v) False;
             start = (s_mult v > low \<and> s_multNext v > low
                      \<and> (s_mult v < high \<or> s_multNext v < high));
             at_once = (s_mult v > s_multNext v \<and> s_multNextNext v < low);
             written = (\<lambda>etot. if fCorrectAngles F then etot else AngleCorrect etot (s_eta v));
             st' = strip_step X F input zvtx d r s nstr t st
         in if start then
              (if at_once then
                 Multiplicity (outp st') (d, r, s, t) = written (s_mult v + s_multNext v)
                 \<and> used st' \<and> eTotal st' = eTotal st
                 \<and> nDouble st' = nDouble st + 1
                 \<and> clusters st' = clusters st @
                      [\<lparr>c_kind = KDoubleNext, c_det = d, c_ring = r, c_sec = s, c_strip = t,
                        c_amp = written (s_mult v + s_multNext v)\<rparr>]
               else
                 eTotal st' = s_mult v + s_multNext v
                 \<and> Multiplicity (outp st') (d, r, s, t) = 0
                 \<and> \<not> used st' \<and> nDouble st' = nDouble st \<and> clusters st' = clusters st)
            else
              (eTotal st' = eTotal st \<and> \<not> used st' \<and> twoLow st' = twoLow st
               \<and> nDouble st' = nDouble st
               \<and> Multiplicity (outp st') (d, r, s, t)
                   = written (if s_mult v > low then s_mult v else 0))"
  using assms
  by (auto simp add: strip_step_def merge_def Let_def SetMultiplicity_def SetEta_def
      AngleCorrect_def)

theorem fresh_strip_merge_witness:
  "\<not> eTotal ex_st > 0 \<and> \<not> used ex_st
   \<and> s_mult (ex_read ex_F ex_in_fall 0) \<noteq> kInvalidMult ex_X
   \<and> s_mult (ex_read ex_F ex_in_fall 0) \<noteq> 0
   \<and> Multiplicity (outp (ex_step ex_F ex_in_fall 0 ex_st)) (1, CHR ''I'', 0, 0) = 0.8
   \<and> used (ex_step ex_F ex_in_fall 0 ex_st)"
proof -
  have h1: "\<not> eTotal ex_st > 0" and h2: "\<not> used ex_st"
    by (simp_all add: ex_st_def)
  have r: "ex_read ex_F ex_in_fall 0
           = \<lparr>s_mult = 0.5, s_multNext = 0.3, s_multNextNext = 0.1, s_eta = 2\<rparr>"
    by (simp add: step_defs ex_defs)
  have h3: "s_mult (ex_read ex_F ex_in_fall 0) \<noteq> kInvalidMult ex_X"
    unfolding r by (simp add: ex_X_def)
  have h4: "s_mult (ex_read ex_F ex_in_fall 0) \<noteq> 0"
    unfolding r by simp
  have "Multiplicity (outp (ex_step ex_F ex_in_fall 0 ex_st)) (1, CHR ''I'', 0, 0) = 0.8
        \<and> used (ex_step ex_F ex_in_fall 0 ex_st)"
    using fresh_strip_merge [of ex_st ex_X ex_F ex_in_fall 0 1 "CHR ''I''" 0 512 0,
        OF h1 h2 h3 [unfolded ex_read_def] h4 [unfolded ex_read_def]]
    unfolding ex_read_def [symmetric] ex_step_def [symmetric] r Let_def
    by (simp add: ex_F_cuts)
  then show ?thesis using h1 h2 h3 h4 by simp
qed

text \<open>
  The claim as stated fails at a strip flagged dead: strip 0 is flagged dead and carries
  0.5, followed by 0.3 and 0.1. The signals satisfy the conditions of the claim (with
  the signal of the strip read either as 0.5 or as \<^verbatim>\<open>kInvalidMult\<close>), yet no double is
  written, the next strip is not marked used and strip 0 receives \<^verbatim>\<open>kInvalidMult\<close>.
\<close>

theorem fresh_strip_merge_counterexample:
  "\<not> 0 < eTotal ex_st \<and> \<not> used ex_st
   \<and> SignalInStrip ex_X ex_F_dead0 ex_in_fall 1 CHR ''I'' 0 0 = 0.5
   \<and> s_mult (ex_read ex_F_dead0 ex_in_fall 0) = 1000
   \<and> s_multNext (ex_read ex_F_dead0 ex_in_fall 0) = 0.3
   \<and> s_multNextNext (ex_read ex_F_dead0 ex_in_fall 0) = 0.1
   \<and> GetLowCut ex_F_dead0 1 CHR ''I'' (s_eta (ex_read ex_F_dead0 ex_in_fall 0)) = 0.15
   \<and> GetHighCut ex_F_dead0 1 CHR ''I'' (s_eta (ex_read ex_F_dead0 ex_in_fall 0)) False = 0.6
   \<and> eTotal (ex_step ex_F_dead0 ex_in_fall 0 ex_st) = - 1
   \<and> \<not> used (ex_step ex_F_dead0 ex_in_fall 0 ex_st)
   \<and> Multiplicity (outp (ex_step ex_F_dead0 ex_in_fall 0 ex_st)) (1, CHR ''I'', 0, 0) = 1000"
  by (simp add: step_defs ex_defs)

text \<open>
  C3 (amended). At a strip whose signal \<^verbatim>\<open>mult\<close> is 0 or \<^verbatim>\<open>kInvalidMult\<close> (an empty
  strip, an invalid strip, or a strip flagged dead), a pending sum is stored at the
  previous strip and the merging state is reset (\<^verbatim>\<open>eTotal = -1\<close>, \<^verbatim>\<open>used\<close> and
  \<^verbatim>\<open>twoLow\<close> false) before the next strip is examined.
\<close>

theorem empty_or_dead_strip_resets:
  assumes "s_mult (read_strip X F input zvtx d r s nstr t) = kInvalidMult X
           \<or> s_mult (read_strip X F input zvtx d r s nstr t) = 0"
  shows "let v = read_strip X F input zvtx d r s nstr t;
             st' = strip_step X F input zvtx d r s nstr t st
         in eTotal st' = - 1 \<and> used st' = False \<and> twoLow st' = False
            \<and> Multiplicity (outp st') (d, r, s, t)
                = (if s_mult v = kInvalidMult X then kInvalidMult X else 0)
            \<and> (if 0 < t then
                 Multiplicity (outp st') (d, r, s, t - 1)
                   = (if eTotal st > 0 then eTotal st else Multiplicity (outp st) (d, r, s, t - 1))
               else True)
            \<and> nSingle st' = nSingle st \<and> nDouble st' = nDouble st \<and> nTriple st' = nTriple st"
  using assms
  by (auto simp add: strip_step_def Let_def SetMultiplicity_def SetEta_def)

theorem empty_or_dead_strip_resets_witness:
  "(s_mult (ex_read ex_F ex_in_one 1) = kInvalidMult ex_X \<or> s_mult (ex_read ex_F ex_in_one 1) = 0)
   \<and> eTotal (ex_step ex_F ex_in_one 1 (ex_step ex_F ex_in_one 0 ex_st)) = - 1
   \<and> \<not> used (ex_step ex_F ex_in_one 1 (ex_step ex_F ex_in_one 0 ex_st))
   \<and> \<not> twoLow (ex_step ex_F ex_in_one 1 (ex_step ex_F ex_in_one 0 ex_st))"
proof -
  have h: "s_mult (ex_read ex_F ex_in_one 1) = kInvalidMult ex_X
           \<or> s_mult (ex_read ex_F ex_in_one 1) = 0"
    by (simp add: step_defs ex_defs)
  show ?thesis
    using h empty_or_dead_strip_resets [of ex_X ex_F ex_in_one 0 1 "CHR ''I''" 0 512 1
        "ex_step ex_F ex_in_one 0 ex_st", OF h [unfolded ex_read_def]]
    unfolding ex_read_def [symmetric] ex_step_def [symmetric] Let_def
    by simp
qed

text \<open>
  The claim as stated fails for a strip whose signal is below the low cut but not 0:
  with the signals 0.5, 0.3 and 0.1 (low cut 0.15), strips 0 and 1 form a double and set
  \<^verbatim>\<open>twoLow\<close>; strip 2, at 0.1, leaves \<^verbatim>\<open>twoLow\<close> set.
\<close>

theorem below_low_cut_counterexample:
  "s_mult (ex_read ex_F ex_in_fall 2) = 0.1
   \<and> GetLowCut ex_F 1 CHR ''I'' (s_eta (ex_read ex_F ex_in_fall 2)) = 0.15
   \<and> twoLow (ex_step ex_F ex_in_fall 2
        (ex_step ex_F ex_in_fall 1 (ex_step ex_F ex_in_fall 0 ex_st)))"
  by (simp add: step_defs ex_defs)




section \<open>The pass as a whole\<close>

subsection \<open>Loops\<close>

lemma fold_keeps:
  assumes "\<And>x st. x \<in> set xs \<Longrightarrow> P (f x st) = P st"
  shows "P (fold f xs st) = P st"
  using assms by (induction xs arbitrary: st) simp_all

lemma fold_settles:
  assumes "k \<in> set xs \<or> R st1 st2"
    and est: "\<And>st1 st2. R (f k st1) (g k st2)"
    and pres: "\<And>x st1 st2. x \<in> set xs \<Longrightarrow> x \<noteq> k \<Longrightarrow> R st1 st2 \<Longrightarrow> R (f x st1) (g x st2)"
  shows "R (fold f xs st1) (fold g xs st2)"
  using assms
proof (induction xs arbitrary: st1 st2)
  case Nil
  then show ?case by simp
next
  case (Cons x xs)
  have "k \<in> set xs \<or> R (f x st1) (g x st2)"
  proof (cases "x = k")
    case True
    then show ?thesis using Cons.prems(2) by simp
  next
    case False
    then show ?thesis using Cons.prems(1) Cons.prems(3) [of x st1 st2] by auto
  qed
  then have "R (fold f xs (f x st1)) (fold g xs (g x st2))"
    using Cons.prems(2,3) by (intro Cons.IH) auto
  then show ?case by simp
qed

lemma merge_outp: "outp (snd (merge F d r v st)) = outp st"
  by (simp add: merge_def Let_def)

lemma strip_step_mult_other:
  assumes "a \<noteq> (d, r, s, t)" and "a \<noteq> (d, r, s, t - 1)"
  shows "Multiplicity (outp (strip_step X F input zvtx d r s nstr t st)) a = Multiplicity (outp st) a"
  using assms merge_outp [of F d r "read_strip X F input zvtx d r s nstr t" st]
  by (auto simp add: strip_step_def Let_def SetMultiplicity_def SetEta_def
      split: prod.splits outcome.splits)

lemma strip_step_eta_other:
  assumes "EtaCell X a \<noteq> EtaCell X (d, r, s, t) \<or> s \<noteq> 0"
  shows "Eta (outp (strip_step X F input zvtx d r s nstr t st)) a = Eta (outp st) a"
  using assms merge_outp [of F d r "read_strip X F input zvtx d r s nstr t" st]
  by (auto simp add: strip_step_def Let_def SetMultiplicity_def SetEta_def
      split: prod.splits outcome.splits)

lemma strip_step_eta_copied:
  assumes "EtaCell X a = EtaCell X (d, r, 0, t)"
  shows "Eta (outp (strip_step X F input zvtx d r 0 nstr t st)) a = Eta input (d, r, 0, t)"
  using assms merge_outp [of F d r "read_strip X F input zvtx d r 0 nstr t" st]
  by (auto simp add: strip_step_def Let_def SetMultiplicity_def SetEta_def
      split: prod.splits outcome.splits)

lemma merge_rel:
  assumes "ctl st1 = ctl st2"
  shows "fst (merge F d r v st1) = fst (merge F d r v st2)"
    and "ctl (snd (merge F d r v st1)) = ctl (snd (merge F d r v st2))"
  using assms by (auto simp add: ctl_def merge_def Let_def)


lemma strip_step_ctl:
  "ctl (strip_step X F input zvtx d r s nstr t st) =
     (let v = read_strip X F input zvtx d r s nstr t in
      if noise X v then (False, - 1, False) else ctl (snd (merge F d r v st)))"
  by (auto simp add: noise_def ctl_def strip_step_def Let_def split: prod.splits outcome.splits)

lemma strip_step_mult_at:
  "Multiplicity (outp (strip_step X F input zvtx d r s nstr t st)) (d, r, s, t) =
     (let v = read_strip X F input zvtx d r s nstr t in
      if noise X v then (if s_mult v = kInvalidMult X then kInvalidMult X else 0)
      else (case fst (merge F d r v st) of
              Continue \<Rightarrow> 0
            | Merged etot k \<Rightarrow> if fCorrectAngles F then etot else AngleCorrect etot (s_eta v)))"
  by (auto simp add: noise_def strip_step_def Let_def SetMultiplicity_def SetEta_def
      split: prod.splits outcome.splits)

lemma strip_step_mult_before:
  assumes "j \<noteq> t"
  shows "Multiplicity (outp (strip_step X F input zvtx d r s nstr t st)) (d, r, s, j) =
     (if noise X (read_strip X F input zvtx d r s nstr t) \<and> eTotal st > 0 \<and> t > 0 \<and> j = t - 1
      then eTotal st else Multiplicity (outp st) (d, r, s, j))"
  using assms merge_outp [of F d r "read_strip X F input zvtx d r s nstr t" st]
  by (auto simp add: noise_def strip_step_def Let_def SetMultiplicity_def SetEta_def
      split: prod.splits outcome.splits)

lemma strip_step_rel:
  assumes "read_strip X F A zvtx d r s nstr k = read_strip X F B zvtx d r s nstr k"
    and "ctl st1 = ctl st2"
  shows "ctl (strip_step X F A zvtx d r s nstr k st1) = ctl (strip_step X F B zvtx d r s nstr k st2)"
    and "Multiplicity (outp (strip_step X F A zvtx d r s nstr k st1)) (d, r, s, k)
         = Multiplicity (outp (strip_step X F B zvtx d r s nstr k st2)) (d, r, s, k)"
  using assms merge_rel [OF assms(2), of F d r "read_strip X F B zvtx d r s nstr k"]
  by (simp_all add: strip_step_ctl strip_step_mult_at Let_def)

lemma strip_step_rel_flush:
  assumes "noise X (read_strip X F A zvtx d r s nstr k) = noise X (read_strip X F B zvtx d r s nstr k)"
    and "ctl st1 = ctl st2" and "j \<noteq> k"
    and "Multiplicity (outp st1) (d, r, s, j) = Multiplicity (outp st2) (d, r, s, j)"
  shows "Multiplicity (outp (strip_step X F A zvtx d r s nstr k st1)) (d, r, s, j)
         = Multiplicity (outp (strip_step X F B zvtx d r s nstr k st2)) (d, r, s, j)"
  using assms by (simp add: strip_step_mult_before ctl_def)

lemma SignalInStrip_cong:
  assumes "IsAngleCorrected A = IsAngleCorrected B" and "same_strip A B d r s j"
  shows "SignalInStrip X F A d r s j = SignalInStrip X F B d r s j"
  using assms by (simp add: SignalInStrip_def same_strip_def Let_def)

lemma read_strip_cong:
  assumes "IsAngleCorrected A = IsAngleCorrected B"
    and "same_strip A B d r s k" and "same_strip A B d r s (k + 1)"
    and "same_strip A B d r s (k + 2)"
  shows "read_strip X F A zvtx d r s nstr k = read_strip X F B zvtx d r s nstr k"
proof -
  have "SignalInStrip X F A d r s k = SignalInStrip X F B d r s k"
    "SignalInStrip X F A d r s (k + 1) = SignalInStrip X F B d r s (k + 1)"
    "SignalInStrip X F A d r s (k + 2) = SignalInStrip X F B d r s (k + 2)"
    using assms by (simp_all add: SignalInStrip_cong)
  moreover have "Eta A (d, r, s, k) = Eta B (d, r, s, k)"
    using assms(2) by (simp add: same_strip_def)
  ultimately show ?thesis unfolding read_strip_def by (simp only:)
qed



lemma s_mult_read_strip:
  "s_mult (read_strip X F input zvtx d r s nstr t) =
     (let m = SignalInStrip X F input d r s t;
          m = (if fRecalculateEta F \<and> m > 0 \<and> m \<noteq> kInvalidMult X
               then m * (ETA2COS (GetEtaFromStrip X d r s t zvtx) / ETA2COS (Eta input (d, r, s, t)))
               else m);
          m = (if m = kInvalidMult X \<and> fInvalidIsEmpty F then 0 else m)
      in if m = kInvalidMult X \<or> IsDead X F d r s t then kInvalidMult X else m)"
proof -
  define m where "m = SignalInStrip X F input d r s t"
  define n1 where "n1 = (if t + 1 < nstr then SignalInStrip X F input d r s (t + 1) else 0)"
  define n2 where "n2 = (if t + 2 < nstr then SignalInStrip X F input d r s (t + 2) else 0)"
  define N where "N = (if n1 = kInvalidMult X then 0 else n1)"
  define N2 where "N2 = (if n2 = kInvalidMult X then 0 else n2)"
  define N3 where "N3 = (if \<not> fThreeStripSharing F then 0 else N2)"
  define corr where
    "corr = ETA2COS (GetEtaFromStrip X d r s t zvtx) / ETA2COS (Eta input (d, r, s, t))"
  define v1 where "v1 =
     (if fRecalculateEta F then
        (if m > 0 \<and> m \<noteq> kInvalidMult X then
           \<lparr>s_mult = m * corr, s_multNext = N * corr, s_multNextNext = N3 * corr,
            s_eta = GetEtaFromStrip X d r s t zvtx\<rparr>
         else \<lparr>s_mult = m, s_multNext = N, s_multNextNext = N3,
               s_eta = GetEtaFromStrip X d r s t zvtx\<rparr>)
      else \<lparr>s_mult = m, s_multNext = N, s_multNextNext = N3, s_eta = Eta input (d, r, s, t)\<rparr>)"
  define v2 where
    "v2 = (if s_mult v1 = kInvalidMult X \<and> fInvalidIsEmpty F then v1\<lparr>s_mult := 0\<rparr> else v1)"
  have rs: "read_strip X F input zvtx d r s nstr t
            = (if s_mult v2 = kInvalidMult X \<or> IsDead X F d r s t
               then v2\<lparr>s_mult := kInvalidMult X\<rparr> else v2)"
    unfolding read_strip_def Let_def v2_def v1_def corr_def N3_def N2_def N_def n2_def n1_def m_def
    by (rule refl)
  have s1: "s_mult v1 = (if fRecalculateEta F \<and> m > 0 \<and> m \<noteq> kInvalidMult X then m * corr else m)"
    by (simp add: v1_def)
  have s2: "s_mult v2 = (if s_mult v1 = kInvalidMult X \<and> fInvalidIsEmpty F then 0 else s_mult v1)"
    by (simp add: v2_def)
  show ?thesis
    unfolding rs Let_def m_def [symmetric] corr_def [symmetric]
    by (simp add: s1 s2)
qed

lemma noise_cong:
  assumes "IsAngleCorrected A = IsAngleCorrected B" and "same_strip A B d r s k"
  shows "noise X (read_strip X F A zvtx d r s nstr k) = noise X (read_strip X F B zvtx d r s nstr k)"
proof -
  have "SignalInStrip X F A d r s k = SignalInStrip X F B d r s k"
    using assms by (simp add: SignalInStrip_cong)
  moreover have "Eta A (d, r, s, k) = Eta B (d, r, s, k)"
    using assms(2) by (simp add: same_strip_def)
  ultimately show ?thesis unfolding noise_def s_mult_read_strip by (simp only:)
qed

lemma scan_rel:
  assumes "\<And>k. k < n \<Longrightarrow> read_strip X F A zvtx d r s nstr k = read_strip X F B zvtx d r s nstr k"
    and "ctl st1 = ctl st2"
  shows "ctl (fold (strip_step X F A zvtx d r s nstr) [0..<n] st1)
         = ctl (fold (strip_step X F B zvtx d r s nstr) [0..<n] st2)
       \<and> (\<forall>j<n. Multiplicity (outp (fold (strip_step X F A zvtx d r s nstr) [0..<n] st1)) (d, r, s, j)
              = Multiplicity (outp (fold (strip_step X F B zvtx d r s nstr) [0..<n] st2)) (d, r, s, j))"
  using assms(1)
proof (induction n)
  case 0
  then show ?case using assms(2) by simp
next
  case (Suc n)
  let ?a = "fold (strip_step X F A zvtx d r s nstr) [0..<n] st1"
  let ?b = "fold (strip_step X F B zvtx d r s nstr) [0..<n] st2"
  have ih: "ctl ?a = ctl ?b"
    "\<And>j. j < n \<Longrightarrow> Multiplicity (outp ?a) (d, r, s, j) = Multiplicity (outp ?b) (d, r, s, j)"
    using Suc.IH Suc.prems by auto
  have rd: "read_strip X F A zvtx d r s nstr n = read_strip X F B zvtx d r s nstr n"
    using Suc.prems by simp
  have c: "ctl (strip_step X F A zvtx d r s nstr n ?a) = ctl (strip_step X F B zvtx d r s nstr n ?b)"
    using strip_step_rel(1) [OF rd ih(1)] .
  have m: "Multiplicity (outp (strip_step X F A zvtx d r s nstr n ?a)) (d, r, s, j)
           = Multiplicity (outp (strip_step X F B zvtx d r s nstr n ?b)) (d, r, s, j)"
    if "j < Suc n" for j
  proof (cases "j = n")
    case True
    then show ?thesis using strip_step_rel(2) [OF rd ih(1)] by simp
  next
    case False
    then have "j < n" using that by simp
    then show ?thesis
      using False ih rd by (intro strip_step_rel_flush) simp_all
  qed
  show ?case using c m by simp
qed

lemma upt_split3:
  assumes "Suc t < n"
  shows "[0..<n] = [0..<Suc t] @ Suc t # [Suc (Suc t)..<n]"
proof -
  have "[0..<Suc t + (n - Suc t)] = [0..<Suc t] @ [Suc t..<Suc t + (n - Suc t)]"
    by (rule upt_add_eq_append) simp
  moreover have "Suc t + (n - Suc t) = n" using assms by simp
  ultimately have "[0..<n] = [0..<Suc t] @ [Suc t..<n]" by simp
  moreover have "[Suc t..<n] = Suc t # [Suc (Suc t)..<n]"
    using assms by (rule upt_conv_Cons)
  ultimately show ?thesis by simp
qed

lemma scan_later:
  assumes "t + 1 < m"
  shows "Multiplicity (outp (fold (strip_step X F input zvtx d r s nstr) [m..<n] st)) (d, r, s, t)
         = Multiplicity (outp st) (d, r, s, t)"
  using assms by (intro fold_keeps strip_step_mult_other) auto

lemma sector_rel:
  assumes ac: "IsAngleCorrected A = IsAngleCorrected B"
    and same: "\<And>j. j \<le> t + 2 \<Longrightarrow> same_strip A B d r s j"
    and t: "t < nstr"
  shows "Multiplicity (outp (Filter_sector X F A zvtx d r nstr s st1)) (d, r, s, t)
         = Multiplicity (outp (Filter_sector X F B zvtx d r nstr s st2)) (d, r, s, t)"
proof -
  let ?fa = "strip_step X F A zvtx d r s nstr"
  let ?fb = "strip_step X F B zvtx d r s nstr"
  let ?a = "fold ?fa [0..<Suc t] (sector_init st1)"
  let ?b = "fold ?fb [0..<Suc t] (sector_init st2)"
  have rd: "read_strip X F A zvtx d r s nstr k = read_strip X F B zvtx d r s nstr k"
    if "k < Suc t" for k
    using that ac same by (intro read_strip_cong) simp_all
  have i: "ctl (sector_init st1) = ctl (sector_init st2)"
    by (simp add: ctl_def sector_init_def)
  have p1: "ctl ?a = ctl ?b"
    "Multiplicity (outp ?a) (d, r, s, t) = Multiplicity (outp ?b) (d, r, s, t)"
    using scan_rel [of "Suc t" X F A zvtx d r s nstr B, OF rd i] by simp_all
  show ?thesis
  proof (cases "Suc t = nstr")
    case True
    then show ?thesis using p1(2) by (simp add: Filter_sector_def)
  next
    case False
    then have lt: "Suc t < nstr" using t by simp
    have split: "[0..<nstr] = [0..<Suc t] @ Suc t # [Suc (Suc t)..<nstr]"
      using lt by (rule upt_split3)
    have ns: "noise X (read_strip X F A zvtx d r s nstr (Suc t))
              = noise X (read_strip X F B zvtx d r s nstr (Suc t))"
      using ac same by (intro noise_cong) simp_all
    have p2: "Multiplicity (outp (?fa (Suc t) ?a)) (d, r, s, t)
              = Multiplicity (outp (?fb (Suc t) ?b)) (d, r, s, t)"
      using ns p1 by (intro strip_step_rel_flush) simp_all
    have "Multiplicity (outp (fold ?fa [Suc (Suc t)..<nstr] (?fa (Suc t) ?a))) (d, r, s, t)
          = Multiplicity (outp (fold ?fb [Suc (Suc t)..<nstr] (?fb (Suc t) ?b))) (d, r, s, t)"
      using p2 by (simp only: scan_later [of t "Suc (Suc t)", simplified])
    then show ?thesis
      unfolding Filter_sector_def split by (simp only: fold_append fold_simps comp_apply)
  qed
qed


subsection \<open>Frames of the loops\<close>

lemma sector_other_mult:
  assumes "(d', r', s') \<noteq> (d, r, s)"
  shows "Multiplicity (outp (Filter_sector X F input zvtx d' r' nstr s' st)) (d, r, s, t)
         = Multiplicity (outp st) (d, r, s, t)"
proof -
  have "Multiplicity (outp (fold (strip_step X F input zvtx d' r' s' nstr) [0..<nstr] (sector_init st)))
          (d, r, s, t) = Multiplicity (outp (sector_init st)) (d, r, s, t)"
    using assms by (intro fold_keeps strip_step_mult_other) auto
  then show ?thesis by (simp add: Filter_sector_def sector_init_def)
qed

lemma ring_of_inj: "q < 2 \<Longrightarrow> q' < 2 \<Longrightarrow> q' \<noteq> q \<Longrightarrow> ring_of q' \<noteq> ring_of q"
  by (auto simp add: ring_of_def)

lemma fold_carries:
  assumes "R st1 st2"
    and "\<And>x st1 st2. x \<in> set xs \<Longrightarrow> R st1 st2 \<Longrightarrow> R (f x st1) (g x st2)"
  shows "R (fold f xs st1) (fold g xs st2)"
  using assms by (induction xs arbitrary: st1 st2) simp_all

text \<open>
  A relation between two passes that the scan of one sector establishes, and that the
  scans of the other sectors carry along, holds at the end of \<^verbatim>\<open>Filter\<close>.
\<close>

lemma scanned_sector:
  assumes "scanned d q s t" and "s' < nsec_of q"
  shows "scanned d q s' 0"
  using assms by (auto simp add: scanned_def nstr_of_def)

lemma pass_settles:
  fixes R :: "pass \<Rightarrow> pass \<Rightarrow> bool"
  assumes sc: "scanned d q s t"
    and est: "\<And>st1 st2.
        R (Filter_sector X F A zvtx d (ring_of q) (nstr_of q) s st1)
          (Filter_sector X F B zvtx d (ring_of q) (nstr_of q) s st2)"
    and pres: "\<And>d' q' s' st1 st2. scanned d' q' s' 0 \<Longrightarrow>
        (d', ring_of q', s') \<noteq> (d, ring_of q, s) \<Longrightarrow> R st1 st2 \<Longrightarrow>
        R (Filter_sector X F A zvtx d' (ring_of q') (nstr_of q') s' st1)
          (Filter_sector X F B zvtx d' (ring_of q') (nstr_of q') s' st2)"
  shows "R (fold (Filter_detector X F A zvtx) [1..<4] st1)
           (fold (Filter_detector X F B zvtx) [1..<4] st2)"
proof -
  have ring_same: "R (Filter_ring X F A zvtx d q st1) (Filter_ring X F B zvtx d q st2)"
    for st1 st2
    unfolding Filter_ring_def Let_def
  proof (rule fold_settles [where k = s])
    show "s \<in> set [0..<nsec_of q] \<or> R st1 st2"
      using sc by (simp add: scanned_def)
  next
    fix st1 st2 :: pass
    show "R (Filter_sector X F A zvtx d (ring_of q) (nstr_of q) s st1)
            (Filter_sector X F B zvtx d (ring_of q) (nstr_of q) s st2)"
      by (rule est)
  next
    fix x and st1 st2 :: pass
    assume x: "x \<in> set [0..<nsec_of q]" and "x \<noteq> s" and "R st1 st2"
    moreover have "scanned d q x 0"
      using sc x by (intro scanned_sector [of d q s t]) simp_all
    ultimately show "R (Filter_sector X F A zvtx d (ring_of q) (nstr_of q) x st1)
            (Filter_sector X F B zvtx d (ring_of q) (nstr_of q) x st2)"
      by (intro pres) simp_all
  qed
  have ring_other: "R (Filter_ring X F A zvtx d' q' st1) (Filter_ring X F B zvtx d' q' st2)"
    if "d' \<noteq> d \<or> ring_of q' \<noteq> ring_of q" and "R st1 st2"
      and "1 \<le> d'" and "d' \<le> 3" and "q' < (if d' = 1 then 1 else 2)" for d' q' st1 st2
    unfolding Filter_ring_def Let_def
  proof (rule fold_carries [where R = R])
    show "R st1 st2" by (rule that(2))
  next
    fix x and st1 st2 :: pass
    assume x: "x \<in> set [0..<nsec_of q']" and r: "R st1 st2"
    have "scanned d' q' x 0"
      using that(3,4,5) x by (simp add: scanned_def nstr_of_def)
    then show "R (Filter_sector X F A zvtx d' (ring_of q') (nstr_of q') x st1)
            (Filter_sector X F B zvtx d' (ring_of q') (nstr_of q') x st2)"
      using that(1) r by (intro pres) auto
  qed
  have det_same: "R (Filter_detector X F A zvtx d st1) (Filter_detector X F B zvtx d st2)"
    for st1 st2
    unfolding Filter_detector_def Let_def
  proof (rule fold_settles [where k = q])
    show "q \<in> set [0..<if d = 1 then 1 else 2] \<or> R st1 st2"
      using sc by (simp add: scanned_def)
  next
    fix st1 st2 :: pass
    show "R (Filter_ring X F A zvtx d q st1) (Filter_ring X F B zvtx d q st2)"
      by (rule ring_same)
  next
    fix x and st1 st2 :: pass
    assume x: "x \<in> set [0..<if d = 1 then 1 else 2]" and "x \<noteq> q" and r: "R st1 st2"
    then have "ring_of x \<noteq> ring_of q"
      using sc by (intro ring_of_inj) (auto simp add: scanned_def split: if_splits)
    then show "R (Filter_ring X F A zvtx d x st1) (Filter_ring X F B zvtx d x st2)"
      using r x sc by (intro ring_other) (simp_all add: scanned_def)
  qed
  have det_other: "R (Filter_detector X F A zvtx d' st1) (Filter_detector X F B zvtx d' st2)"
    if "d' \<noteq> d" and "R st1 st2" and "1 \<le> d'" and "d' \<le> 3" for d' st1 st2
    unfolding Filter_detector_def Let_def
    using that by (intro fold_carries [where R = R] ring_other) auto
  show ?thesis
  proof (rule fold_settles [where k = d])
    show "d \<in> set [1..<4] \<or> R st1 st2"
      using sc by (simp add: scanned_def)
  next
    fix st1 st2 :: pass
    show "R (Filter_detector X F A zvtx d st1) (Filter_detector X F B zvtx d st2)"
      by (rule det_same)
  next
    fix x and st1 st2 :: pass
    assume "x \<in> set [1..<4]" and "x \<noteq> d" and "R st1 st2"
    then show "R (Filter_detector X F A zvtx x st1) (Filter_detector X F B zvtx x st2)"
      by (intro det_other) simp_all
  qed
qed

lemma pass_rel:
  assumes ac: "IsAngleCorrected A = IsAngleCorrected B"
    and same: "\<And>j. j \<le> t + 2 \<Longrightarrow> same_strip A B d (ring_of q) s j"
    and sc: "scanned d q s t"
  shows "Multiplicity (outp (Filter_pass X F A lfA outA zvtx)) (d, ring_of q, s, t)
         = Multiplicity (outp (Filter_pass X F B lfB outB zvtx)) (d, ring_of q, s, t)"
  unfolding Filter_pass_def
proof (rule pass_settles [where R = "\<lambda>st1 st2. Multiplicity (outp st1) (d, ring_of q, s, t)
         = Multiplicity (outp st2) (d, ring_of q, s, t)", OF sc])
  fix st1 st2 :: pass
  show "Multiplicity (outp (Filter_sector X F A zvtx d (ring_of q) (nstr_of q) s st1)) (d, ring_of q, s, t)
      = Multiplicity (outp (Filter_sector X F B zvtx d (ring_of q) (nstr_of q) s st2)) (d, ring_of q, s, t)"
    using ac same sc by (intro sector_rel) (simp_all add: scanned_def)
next
  fix d' q' s' and st1 st2 :: pass
  assume "(d', ring_of q', s') \<noteq> (d, ring_of q, s)"
    and "Multiplicity (outp st1) (d, ring_of q, s, t) = Multiplicity (outp st2) (d, ring_of q, s, t)"
  then show "Multiplicity (outp (Filter_sector X F A zvtx d' (ring_of q') (nstr_of q') s' st1)) (d, ring_of q, s, t)
      = Multiplicity (outp (Filter_sector X F B zvtx d' (ring_of q') (nstr_of q') s' st2)) (d, ring_of q, s, t)"
    by (simp add: sector_other_mult)
qed

text \<open>The value at a scanned strip is settled two iterations later.\<close>

lemma sector_prefix:
  assumes "ctl st0 = (False, - 1, False)" and "t + 2 \<le> nstr"
  shows "Multiplicity (outp (Filter_sector X F A zvtx d r nstr s st)) (d, r, s, t)
         = Multiplicity (outp (fold (strip_step X F A zvtx d r s nstr) [0..<t + 2] st0)) (d, r, s, t)"
proof -
  let ?f = "strip_step X F A zvtx d r s nstr"
  have i: "ctl (sector_init st) = ctl st0"
    using assms(1) by (simp add: ctl_def sector_init_def)
  have "Multiplicity (outp (fold ?f [0..<t + 2] (sector_init st))) (d, r, s, t)
        = Multiplicity (outp (fold ?f [0..<t + 2] st0)) (d, r, s, t)"
    using scan_rel [of "t + 2" X F A zvtx d r s nstr A, OF refl i] by simp
  moreover have "[0..<nstr] = [0..<t + 2] @ [t + 2..<nstr]"
    using assms(2) by (metis le_add_diff_inverse upt_add_eq_append zero_le)
  ultimately show ?thesis
    unfolding Filter_sector_def by (simp add: scan_later del: upt_Suc)
qed

lemma pass_prefix:
  assumes "ctl st0 = (False, - 1, False)" and "t + 2 \<le> nstr_of q" and sc: "scanned d q s t"
  shows "Multiplicity (outp (Filter_pass X F A lf out zvtx)) (d, ring_of q, s, t)
         = Multiplicity (outp (fold (strip_step X F A zvtx d (ring_of q) s (nstr_of q)) [0..<t + 2] st0))
             (d, ring_of q, s, t)"
  unfolding Filter_pass_def
proof (rule pass_settles [where B = A and R = "\<lambda>st1 st2. Multiplicity (outp st1) (d, ring_of q, s, t)
         = Multiplicity (outp (fold (strip_step X F A zvtx d (ring_of q) s (nstr_of q)) [0..<t + 2] st0))
             (d, ring_of q, s, t)", OF sc])
  fix st1 :: pass
  show "Multiplicity (outp (Filter_sector X F A zvtx d (ring_of q) (nstr_of q) s st1)) (d, ring_of q, s, t)
      = Multiplicity (outp (fold (strip_step X F A zvtx d (ring_of q) s (nstr_of q)) [0..<t + 2] st0))
             (d, ring_of q, s, t)"
    using assms(1,2) by (rule sector_prefix)
next
  fix d' q' s' and st1 :: pass
  assume "(d', ring_of q', s') \<noteq> (d, ring_of q, s)"
    and "Multiplicity (outp st1) (d, ring_of q, s, t)
      = Multiplicity (outp (fold (strip_step X F A zvtx d (ring_of q) s (nstr_of q)) [0..<t + 2] st0))
             (d, ring_of q, s, t)"
  then show "Multiplicity (outp (Filter_sector X F A zvtx d' (ring_of q') (nstr_of q') s' st1)) (d, ring_of q, s, t)
      = Multiplicity (outp (fold (strip_step X F A zvtx d (ring_of q) s (nstr_of q)) [0..<t + 2] st0))
             (d, ring_of q, s, t)"
    by (simp add: sector_other_mult)
qed

lemma clear_irrelevant:
  "strip_step (X\<lparr>Clear := c\<rparr>) F input zvtx d r s nstr t st = strip_step X F input zvtx d r s nstr t st"
proof -
  have k: "kInvalidMult (X\<lparr>Clear := c\<rparr>) = kInvalidMult X"
    and g: "GetEtaFromStrip (X\<lparr>Clear := c\<rparr>) = GetEtaFromStrip X"
    and p: "Pack (X\<lparr>Clear := c\<rparr>) = Pack X"
    and e: "EtaCell (X\<lparr>Clear := c\<rparr>) = EtaCell X"
    by simp_all
  show ?thesis
    unfolding strip_step_def read_strip_def SignalInStrip_def IsDead_def SetEta_def k g p e
    by (rule refl)
qed

lemma Filter_pass_Clear:
  "Filter_pass (X\<lparr>Clear := c\<rparr>) F input lowFlux out zvtx =
     fold (Filter_detector X F input zvtx) [1..<4]
       \<lparr>used = False, eTotal = - 1, twoLow = False, outp = c out,
        nSingle = 0, nDouble = 0, nTriple = 0, clusters = []\<rparr>"
proof -
  have "strip_step (X\<lparr>Clear := c\<rparr>) F input zvtx = strip_step X F input zvtx"
    by (intro ext) (rule clear_irrelevant)
  then have "Filter_sector (X\<lparr>Clear := c\<rparr>) F input zvtx = Filter_sector X F input zvtx"
    by (intro ext) (simp add: Filter_sector_def)
  then have "Filter_ring (X\<lparr>Clear := c\<rparr>) F input zvtx = Filter_ring X F input zvtx"
    by (intro ext) (simp add: Filter_ring_def)
  then have "Filter_detector (X\<lparr>Clear := c\<rparr>) F input zvtx = Filter_detector X F input zvtx"
    by (intro ext) (simp add: Filter_detector_def)
  then show ?thesis by (simp add: Filter_pass_def)
qed

lemma ex_st_ctl: "ctl ex_st = (False, - 1, False)"
  by (simp add: ctl_def ex_st_def)

lemma ex_scanned_4: "scanned 1 0 0 4"
  by (simp add: scanned_def nsec_of_def nstr_of_def)

lemma ex_scanned_0: "scanned 1 0 0 0"
  by (simp add: scanned_def nsec_of_def nstr_of_def)

lemma one_scan:
  "Multiplicity (outp (ex_step ex_F ex_in_one 1 (ex_step ex_F ex_in_one 0 ex_st)))
     (1, CHR ''I'', 0, 0) = 0.5"
  by (simp add: step_defs ex_defs)

lemma raw_scan:
  "Multiplicity (outp (ex_step ex_F ex_in_raw 1 (ex_step ex_F ex_in_raw 0 ex_st)))
     (1, CHR ''I'', 0, 0) = AngleCorrect 0.5 2"
  using AngleCorrect_half_2 by (simp add: step_defs ex_defs)

lemma stale_scan:
  "Multiplicity (outp (fold (strip_step ex_X ex_F ex_in_stale 0 1 CHR ''I'' 0 512) [0..<6] ex_st))
     (1, CHR ''I'', 0, 4) = 2.3"
  by (simp add: upt_rec step_defs ex_defs)

lemma fresh_scan:
  "Multiplicity (outp (fold (strip_step ex_X ex_F ex_in_fresh 0 1 CHR ''I'' 0 512) [0..<6] ex_st))
     (1, CHR ''I'', 0, 4) = 1.4"
  by (simp add: upt_rec step_defs ex_defs)

lemma sector_keeps_eta:
  assumes "s' = 0 \<Longrightarrow> \<forall>t'<nstr. EtaCell X (d', r', 0, t') \<noteq> EtaCell X a"
  shows "Eta (outp (Filter_sector X F input zvtx d' r' nstr s' st)) a = Eta (outp st) a"
proof -
  have "Eta (outp (fold (strip_step X F input zvtx d' r' s' nstr) [0..<nstr] (sector_init st))) a
        = Eta (outp (sector_init st)) a"
  proof (rule fold_keeps [where P = "\<lambda>st. Eta (outp st) a"])
    fix x and st1 :: pass
    assume "x \<in> set [0..<nstr]"
    then have "EtaCell X a \<noteq> EtaCell X (d', r', s', x) \<or> s' \<noteq> 0"
      using assms by (cases "s' = 0") auto
    then show "Eta (outp (strip_step X F input zvtx d' r' s' nstr x st1)) a = Eta (outp st1) a"
      by (rule strip_step_eta_other)
  qed
  then show ?thesis by (simp add: Filter_sector_def sector_init_def)
qed

lemma pass_keeps_eta:
  assumes "eta_untouched X a"
  shows "Eta (outp (fold (Filter_detector X F input zvtx) [1..<4] st)) a = Eta (outp st) a"
proof -
  have sec: "Eta (outp (Filter_sector X F input zvtx d' (ring_of q') (nstr_of q') s' st')) a
             = Eta (outp st') a"
    if "1 \<le> d'" and "d' \<le> 3" and "q' < (if d' = 1 then 1 else 2)" and "s' < nsec_of q'"
    for d' q' s' st'
  proof (rule sector_keeps_eta)
    assume "s' = 0"
    then show "\<forall>t'<nstr_of q'. EtaCell X (d', ring_of q', 0, t') \<noteq> EtaCell X a"
      using assms that by (simp add: eta_untouched_def scanned_def)
  qed
  have ring: "Eta (outp (Filter_ring X F input zvtx d' q' st')) a = Eta (outp st') a"
    if "1 \<le> d'" and "d' \<le> 3" and "q' < (if d' = 1 then 1 else 2)" for d' q' st'
    unfolding Filter_ring_def Let_def
    using that by (intro fold_keeps [where P = "\<lambda>st. Eta (outp st) a"] sec) simp_all
  have det: "Eta (outp (Filter_detector X F input zvtx d' st')) a = Eta (outp st') a"
    if "1 \<le> d'" and "d' \<le> 3" for d' st'
    unfolding Filter_detector_def Let_def
    using that by (intro fold_keeps [where P = "\<lambda>st. Eta (outp st) a"] ring) simp_all
  show ?thesis
    by (intro fold_keeps [where P = "\<lambda>st. Eta (outp st) a"] det) simp_all
qed

lemma sector_copies_eta:
  assumes "t < nstr" and "EtaCell X a = EtaCell X (d, r, 0, t)"
    and "\<And>x. x < nstr \<Longrightarrow> x \<noteq> t \<Longrightarrow> EtaCell X (d, r, 0, x) \<noteq> EtaCell X a"
  shows "Eta (outp (Filter_sector X F input zvtx d r nstr 0 st)) a = Eta input (d, r, 0, t)"
  unfolding Filter_sector_def
proof (rule fold_settles [where k = t and g = "\<lambda>x st. st"
      and R = "\<lambda>st1 st2. Eta (outp st1) a = Eta input (d, r, 0, t)"])
  show "t \<in> set [0..<nstr] \<or> Eta (outp (sector_init st)) a = Eta input (d, r, 0, t)"
    using assms(1) by simp
next
  fix st1 :: pass
  show "Eta (outp (strip_step X F input zvtx d r 0 nstr t st1)) a = Eta input (d, r, 0, t)"
    using assms(2) by (rule strip_step_eta_copied)
next
  fix x and st1 :: pass
  assume "x \<in> set [0..<nstr]" and "x \<noteq> t" and "Eta (outp st1) a = Eta input (d, r, 0, t)"
  then show "Eta (outp (strip_step X F input zvtx d r 0 nstr x st1)) a = Eta input (d, r, 0, t)"
    using assms(3) [of x] by (simp add: strip_step_eta_other)
qed

lemma pass_copies_eta:
  assumes sc: "scanned d q 0 t"
    and cell: "EtaCell X a = EtaCell X (d, ring_of q, 0, t)"
    and own: "eta_cell_own X d q t"
  shows "Eta (outp (fold (Filter_detector X F input zvtx) [1..<4] st)) a
         = Eta input (d, ring_of q, 0, t)"
proof (rule pass_settles [where B = input
      and R = "\<lambda>st1 st2. Eta (outp st1) a = Eta input (d, ring_of q, 0, t)", OF sc])
  fix st1 :: pass
  show "Eta (outp (Filter_sector X F input zvtx d (ring_of q) (nstr_of q) 0 st1)) a
        = Eta input (d, ring_of q, 0, t)"
  proof (rule sector_copies_eta [OF _ cell])
    show "t < nstr_of q" using sc by (simp add: scanned_def)
  next
    fix x
    assume "x < nstr_of q" and ne: "x \<noteq> t"
    then have "scanned d q 0 x" using sc by (simp add: scanned_def)
    then show "EtaCell X (d, ring_of q, 0, x) \<noteq> EtaCell X a"
      using own ne unfolding eta_cell_own_def cell by blast
  qed
next
  fix d' q' s' :: nat and st1 :: pass
  assume s0: "scanned d' q' s' 0"
    and ne: "(d', ring_of q', s') \<noteq> (d, ring_of q, 0)"
    and r: "Eta (outp st1) a = Eta input (d, ring_of q, 0, t)"
  have "Eta (outp (Filter_sector X F input zvtx d' (ring_of q') (nstr_of q') s' st1)) a
        = Eta (outp st1) a"
  proof (rule sector_keeps_eta)
    assume z: "s' = 0"
    show "\<forall>t'<nstr_of q'. EtaCell X (d', ring_of q', 0, t') \<noteq> EtaCell X a"
    proof (intro allI impI)
      fix t'
      assume "t' < nstr_of q'"
      then have "scanned d' q' 0 t'" using s0 z by (simp add: scanned_def)
      moreover have "\<not> (d' = d \<and> q' = q \<and> t' = t)" using ne z by auto
      ultimately show "EtaCell X (d', ring_of q', 0, t') \<noteq> EtaCell X a"
        using own unfolding eta_cell_own_def cell by blast
    qed
  qed
  then show "Eta (outp (Filter_sector X F input zvtx d' (ring_of q') (nstr_of q') s' st1)) a
        = Eta input (d, ring_of q, 0, t)"
    using r by simp
qed

text \<open>The multiplicity at a scanned strip is written: it does not depend on the state before.\<close>

lemma pass_writes_mult:
  assumes sc: "scanned d q s t"
  shows "Multiplicity (outp (fold (Filter_detector X F input zvtx) [1..<4] st1)) (d, ring_of q, s, t)
         = Multiplicity (outp (fold (Filter_detector X F input zvtx) [1..<4] st2)) (d, ring_of q, s, t)"
proof (rule pass_settles [where R = "\<lambda>st1 st2. Multiplicity (outp st1) (d, ring_of q, s, t)
         = Multiplicity (outp st2) (d, ring_of q, s, t)", OF sc])
  fix st1 st2 :: pass
  show "Multiplicity (outp (Filter_sector X F input zvtx d (ring_of q) (nstr_of q) s st1)) (d, ring_of q, s, t)
      = Multiplicity (outp (Filter_sector X F input zvtx d (ring_of q) (nstr_of q) s st2)) (d, ring_of q, s, t)"
    using sc by (intro sector_rel) (simp_all add: scanned_def same_strip_def)
next
  fix d' q' s' and st1 st2 :: pass
  assume "(d', ring_of q', s') \<noteq> (d, ring_of q, s)"
    and "Multiplicity (outp st1) (d, ring_of q, s, t) = Multiplicity (outp st2) (d, ring_of q, s, t)"
  then show "Multiplicity (outp (Filter_sector X F input zvtx d' (ring_of q') (nstr_of q') s' st1)) (d, ring_of q, s, t)
      = Multiplicity (outp (Filter_sector X F input zvtx d' (ring_of q') (nstr_of q') s' st2)) (d, ring_of q, s, t)"
    by (simp add: sector_other_mult)
qed

subsection \<open>Runs on inputs that agree\<close>

lemma read_strip_agree:
  assumes "IsAngleCorrected A = IsAngleCorrected B"
    and "same_strip A B d r s k"
    and "k + 1 < nstr \<Longrightarrow> same_strip A B d r s (k + 1)"
    and "k + 2 < nstr \<Longrightarrow> same_strip A B d r s (k + 2)"
  shows "read_strip X F A zvtx d r s nstr k = read_strip X F B zvtx d r s nstr k"
proof -
  have "SignalInStrip X F A d r s k = SignalInStrip X F B d r s k"
    using assms(1,2) by (simp add: SignalInStrip_cong)
  moreover have "(if k + 1 < nstr then SignalInStrip X F A d r s (k + 1) else 0)
                 = (if k + 1 < nstr then SignalInStrip X F B d r s (k + 1) else 0)"
    using assms(1,3) by (simp add: SignalInStrip_cong)
  moreover have "(if k + 2 < nstr then SignalInStrip X F A d r s (k + 2) else 0)
                 = (if k + 2 < nstr then SignalInStrip X F B d r s (k + 2) else 0)"
    using assms(1,4) by (simp add: SignalInStrip_cong)
  moreover have "Eta A (d, r, s, k) = Eta B (d, r, s, k)"
    using assms(2) by (simp add: same_strip_def)
  ultimately show ?thesis unfolding read_strip_def by (simp only:)
qed

lemma strip_step_agree:
  assumes "IsAngleCorrected A = IsAngleCorrected B"
    and "same_strip A B d r s k"
    and "k + 1 < nstr \<Longrightarrow> same_strip A B d r s (k + 1)"
    and "k + 2 < nstr \<Longrightarrow> same_strip A B d r s (k + 2)"
  shows "strip_step X F A zvtx d r s nstr k st = strip_step X F B zvtx d r s nstr k st"
proof -
  have "read_strip X F A zvtx d r s nstr k = read_strip X F B zvtx d r s nstr k"
    using assms by (rule read_strip_agree)
  moreover have "Eta A (d, r, s, k) = Eta B (d, r, s, k)"
    using assms(2) by (simp add: same_strip_def)
  ultimately show ?thesis unfolding strip_step_def by (simp only:)
qed

lemma pass_agree:
  assumes ac: "IsAngleCorrected A = IsAngleCorrected B"
    and same: "\<And>d q s t. scanned d q s t \<Longrightarrow> same_strip A B d (ring_of q) s t"
  shows "fold (Filter_detector X F A zvtx) [1..<4] st = fold (Filter_detector X F B zvtx) [1..<4] st"
proof -
  have sec: "Filter_sector X F A zvtx d (ring_of q) (nstr_of q) s st'
             = Filter_sector X F B zvtx d (ring_of q) (nstr_of q) s st'"
    if sc: "scanned d q s 0" for d q s st'
    unfolding Filter_sector_def
  proof (rule fold_carries [where R = "(=)"])
    show "sector_init st' = sector_init st'" by (rule refl)
  next
    fix x and st1 st2 :: pass
    assume x: "x \<in> set [0..<nstr_of q]" and e: "st1 = st2"
    have in_sec: "scanned d q s j" if "j < nstr_of q" for j
      using sc that by (simp add: scanned_def)
    have "strip_step X F A zvtx d (ring_of q) s (nstr_of q) x st2
          = strip_step X F B zvtx d (ring_of q) s (nstr_of q) x st2"
      using ac x by (intro strip_step_agree same in_sec) simp_all
    then show "strip_step X F A zvtx d (ring_of q) s (nstr_of q) x st1
          = strip_step X F B zvtx d (ring_of q) s (nstr_of q) x st2"
      using e by simp
  qed
  have ring: "Filter_ring X F A zvtx d q st' = Filter_ring X F B zvtx d q st'"
    if "1 \<le> d" and "d \<le> 3" and "q < (if d = 1 then 1 else 2)" for d q st'
    unfolding Filter_ring_def Let_def
  proof (rule fold_carries [where R = "(=)"])
    show "st' = st'" by (rule refl)
  next
    fix x and st1 st2 :: pass
    assume "x \<in> set [0..<nsec_of q]" and e: "st1 = st2"
    then have "scanned d q x 0" using that by (simp add: scanned_def nstr_of_def)
    then show "Filter_sector X F A zvtx d (ring_of q) (nstr_of q) x st1
          = Filter_sector X F B zvtx d (ring_of q) (nstr_of q) x st2"
      using e by (simp add: sec)
  qed
  have det: "Filter_detector X F A zvtx d st' = Filter_detector X F B zvtx d st'"
    if "1 \<le> d" and "d \<le> 3" for d st'
    unfolding Filter_detector_def Let_def
  proof (rule fold_carries [where R = "(=)"])
    show "st' = st'" by (rule refl)
  next
    fix x and st1 st2 :: pass
    assume "x \<in> set [0..<if d = 1 then 1 else 2]" and e: "st1 = st2"
    then have "x < (if d = 1 then 1 else 2)" by simp
    then show "Filter_ring X F A zvtx d x st1 = Filter_ring X F B zvtx d x st2"
      using e that by (simp add: ring)
  qed
  show ?thesis
  proof (rule fold_carries [where R = "(=)"])
    show "st = st" by (rule refl)
  next
    fix x and st1 st2 :: pass
    assume "x \<in> set [1..<4]" and e: "st1 = st2"
    then have "1 \<le> x" and "x \<le> 3" by simp_all
    then show "Filter_detector X F A zvtx x st1 = Filter_detector X F B zvtx x st2"
      using e by (simp add: det)
  qed
qed

subsection \<open>What the output at a strip depends on\<close>

text \<open>
  C6 (amended). \<^verbatim>\<open>Filter\<close> is deterministic and single-pass. Two runs with the same
  vertex and the same filter configuration, on input objects that agree in
  \<^verbatim>\<open>IsAngleCorrected\<close> and in the signal and eta of every strip that is scanned, and on
  output objects that \<^verbatim>\<open>Clear\<close> leaves equal, return equal output objects (and true);
  this holds in particular of two runs on equal inputs. Moreover the merged output
  written at strip \<open>t\<close> of a sector depends only on \<^verbatim>\<open>IsAngleCorrected\<close> and on the
  input signals and eta values at the strips 0 to \<open>t + 2\<close> of that same sector: two
  input objects that agree there give the same output at that strip, whatever they hold
  elsewhere and whatever the output objects held before. There is a look-ahead of two
  strips, no influence of later strips and none of other sectors.
\<close>

theorem Filter_depends_on_earlier_strips:
  "(IsAngleCorrected A = IsAngleCorrected B
      \<and> (\<forall>d q s t. scanned d q s t \<longrightarrow>
            Multiplicity A (d, ring_of q, s, t) = Multiplicity B (d, ring_of q, s, t)
            \<and> Eta A (d, ring_of q, s, t) = Eta B (d, ring_of q, s, t))
      \<and> Clear X outA = Clear X outB
    \<longrightarrow> Filter X F A lowFluxA outA zvtx = Filter X F B lowFluxB outB zvtx)
   \<and> (IsAngleCorrected A = IsAngleCorrected B
      \<and> (\<forall>j\<le>t + 2. Multiplicity A (d, ring_of q, s, j) = Multiplicity B (d, ring_of q, s, j)
                     \<and> Eta A (d, ring_of q, s, j) = Eta B (d, ring_of q, s, j))
      \<and> scanned d q s t
    \<longrightarrow> Multiplicity (snd (Filter X F A lowFluxA outA zvtx)) (d, ring_of q, s, t)
         = Multiplicity (snd (Filter X F B lowFluxB outB zvtx)) (d, ring_of q, s, t))"
proof (intro conjI impI)
  assume h: "IsAngleCorrected A = IsAngleCorrected B
      \<and> (\<forall>d q s t. scanned d q s t \<longrightarrow>
            Multiplicity A (d, ring_of q, s, t) = Multiplicity B (d, ring_of q, s, t)
            \<and> Eta A (d, ring_of q, s, t) = Eta B (d, ring_of q, s, t))
      \<and> Clear X outA = Clear X outB"
  then have "fold (Filter_detector X F A zvtx) [1..<4] st
             = fold (Filter_detector X F B zvtx) [1..<4] st" for st
    by (intro pass_agree) (simp_all add: same_strip_def)
  then show "Filter X F A lowFluxA outA zvtx = Filter X F B lowFluxB outB zvtx"
    using h by (simp add: Filter_def Filter_pass_def)
next
  assume "IsAngleCorrected A = IsAngleCorrected B
      \<and> (\<forall>j\<le>t + 2. Multiplicity A (d, ring_of q, s, j) = Multiplicity B (d, ring_of q, s, j)
                     \<and> Eta A (d, ring_of q, s, j) = Eta B (d, ring_of q, s, j))
      \<and> scanned d q s t"
  then show "Multiplicity (snd (Filter X F A lowFluxA outA zvtx)) (d, ring_of q, s, t)
         = Multiplicity (snd (Filter X F B lowFluxB outB zvtx)) (d, ring_of q, s, t)"
    using pass_rel [of A B t d q s X F lowFluxA outA zvtx lowFluxB outB]
    by (simp add: Filter_def same_strip_def)
qed

theorem Filter_depends_on_earlier_strips_witness:
  "IsAngleCorrected ex_in_rise = IsAngleCorrected ex_in_off
   \<and> Multiplicity ex_in_rise (7, CHR ''I'', 0, 0) \<noteq> Multiplicity ex_in_off (7, CHR ''I'', 0, 0)
   \<and> Clear ex_X (esd_of []) = Clear ex_X ex_in_one
   \<and> Filter ex_X ex_F ex_in_rise False (esd_of []) 0 = Filter ex_X ex_F ex_in_off True ex_in_one 0
   \<and> IsAngleCorrected ex_in_rise = IsAngleCorrected ex_in_mark
   \<and> scanned 1 0 0 0
   \<and> Multiplicity ex_in_rise (1, CHR ''I'', 0, 9) \<noteq> Multiplicity ex_in_mark (1, CHR ''I'', 0, 9)
   \<and> Multiplicity (snd (Filter ex_X ex_F ex_in_rise False (esd_of []) 0)) (1, ring_of 0, 0, 0)
       = Multiplicity (snd (Filter ex_X ex_F ex_in_mark False (esd_of []) 0)) (1, ring_of 0, 0, 0)"
proof -
  have g1: "IsAngleCorrected ex_in_rise = IsAngleCorrected ex_in_off"
    by (simp add: ex_in_off_def)
  have g2: "\<forall>d q s t. scanned d q s t \<longrightarrow>
            Multiplicity ex_in_rise (d, ring_of q, s, t) = Multiplicity ex_in_off (d, ring_of q, s, t)
            \<and> Eta ex_in_rise (d, ring_of q, s, t) = Eta ex_in_off (d, ring_of q, s, t)"
    by (simp add: ex_in_off_def scanned_def)
  have g3: "Clear ex_X (esd_of []) = Clear ex_X ex_in_one"
    by (simp add: ex_X_def ex_in_one_def esd_of_def)
  have g4: "Multiplicity ex_in_rise (7, CHR ''I'', 0, 0) \<noteq> Multiplicity ex_in_off (7, CHR ''I'', 0, 0)"
    by (simp add: ex_in_off_def ex_in_rise_def esd_of_def)
  have h1: "IsAngleCorrected ex_in_rise = IsAngleCorrected ex_in_mark"
    by (simp add: ex_in_mark_def)
  have h2: "\<forall>j\<le>0 + 2. Multiplicity ex_in_rise (1, ring_of 0, 0, j) = Multiplicity ex_in_mark (1, ring_of 0, 0, j)
                   \<and> Eta ex_in_rise (1, ring_of 0, 0, j) = Eta ex_in_mark (1, ring_of 0, 0, j)"
    by (simp add: ex_in_mark_def)
  have h3: "scanned 1 0 0 0"
    by (simp add: scanned_def nsec_of_def nstr_of_def)
  have d: "Multiplicity ex_in_rise (1, CHR ''I'', 0, 9) \<noteq> Multiplicity ex_in_mark (1, CHR ''I'', 0, 9)"
    by (simp add: ex_in_mark_def ex_in_rise_def esd_of_def)
  have a: "Filter ex_X ex_F ex_in_rise False (esd_of []) 0 = Filter ex_X ex_F ex_in_off True ex_in_one 0"
    using g1 g2 g3
      Filter_depends_on_earlier_strips [where A = ex_in_rise and B = ex_in_off and X = ex_X
        and outA = "esd_of []" and outB = ex_in_one and F = ex_F and lowFluxA = False
        and lowFluxB = True and zvtx = 0]
    by blast
  have b: "Multiplicity (snd (Filter ex_X ex_F ex_in_rise False (esd_of []) 0)) (1, ring_of 0, 0, 0)
       = Multiplicity (snd (Filter ex_X ex_F ex_in_mark False (esd_of []) 0)) (1, ring_of 0, 0, 0)"
    using h1 h2 h3
      Filter_depends_on_earlier_strips [where A = ex_in_rise and B = ex_in_mark and X = ex_X
        and outA = "esd_of []" and outB = "esd_of []" and F = ex_F and lowFluxA = False
        and lowFluxB = False and zvtx = 0 and d = 1 and q = 0 and s = 0 and t = 0]
    by blast
  show ?thesis using g1 g3 g4 a h1 h3 d b by simp
qed

text \<open>
  The claim as stated confines the dependence to the input signals at the strips
  \<open>t - 2\<close> to \<open>t + 2\<close>. It fails on two inputs that agree on the strips 2 to 6 of
  a sector and differ on strips 0 and 1: the double formed on strips 0 and 1 leaves
  \<^verbatim>\<open>twoLow\<close> set, strip 2 (below the low cut, not 0) does not reset it, and at strip 4
  it turns the pending sum of strips 3 and 4 into a triple (2.3) where the other input
  gives a double (1.4). It also fails on two inputs with the same signals and eta values
  everywhere, of which one is flagged as angle corrected and the other is not: a single
  hit of 0.5 is written as 0.5 for the first and as its angle corrected value for the
  second.
\<close>

theorem Filter_window_counterexample:
  "IsAngleCorrected ex_in_stale = IsAngleCorrected ex_in_fresh
   \<and> same_strip ex_in_stale ex_in_fresh 1 CHR ''I'' 0 2
   \<and> same_strip ex_in_stale ex_in_fresh 1 CHR ''I'' 0 3
   \<and> same_strip ex_in_stale ex_in_fresh 1 CHR ''I'' 0 4
   \<and> same_strip ex_in_stale ex_in_fresh 1 CHR ''I'' 0 5
   \<and> same_strip ex_in_stale ex_in_fresh 1 CHR ''I'' 0 6
   \<and> Multiplicity (snd (Filter ex_X ex_F ex_in_stale False (esd_of []) 0)) (1, CHR ''I'', 0, 4) = 2.3
   \<and> Multiplicity (snd (Filter ex_X ex_F ex_in_fresh False (esd_of []) 0)) (1, CHR ''I'', 0, 4) = 1.4
   \<and> Multiplicity ex_in_raw = Multiplicity ex_in_one \<and> Eta ex_in_raw = Eta ex_in_one
   \<and> IsAngleCorrected ex_in_one \<and> \<not> IsAngleCorrected ex_in_raw
   \<and> Multiplicity (snd (Filter ex_X ex_F ex_in_one False (esd_of []) 0)) (1, CHR ''I'', 0, 0) = 0.5
   \<and> Multiplicity (snd (Filter ex_X ex_F ex_in_raw False (esd_of []) 0)) (1, CHR ''I'', 0, 0)
       = AngleCorrect 0.5 2
   \<and> AngleCorrect 0.5 2 < 0.5"
proof -
  have s: "same_strip ex_in_stale ex_in_fresh 1 CHR ''I'' 0 j" if "2 \<le> j" for j
    using that by (auto simp add: same_strip_def ex_in_stale_def ex_in_fresh_def esd_of_def nth_Cons'
        split: if_splits)
  have a: "Multiplicity (snd (Filter ex_X ex_F ex_in_stale False (esd_of []) 0)) (1, CHR ''I'', 0, 4) = 2.3"
    using pass_prefix [OF ex_st_ctl _ ex_scanned_4, of ex_X ex_F ex_in_stale False "esd_of []" 0] stale_scan
    by (simp add: Filter_def ring_of_def nstr_of_def)
  have b: "Multiplicity (snd (Filter ex_X ex_F ex_in_fresh False (esd_of []) 0)) (1, CHR ''I'', 0, 4) = 1.4"
    using pass_prefix [OF ex_st_ctl _ ex_scanned_4, of ex_X ex_F ex_in_fresh False "esd_of []" 0] fresh_scan
    by (simp add: Filter_def ring_of_def nstr_of_def)
  have i: "IsAngleCorrected ex_in_stale = IsAngleCorrected ex_in_fresh"
    by (simp add: ex_in_stale_def ex_in_fresh_def esd_of_def)
  have e: "Multiplicity ex_in_raw = Multiplicity ex_in_one" "Eta ex_in_raw = Eta ex_in_one"
    "IsAngleCorrected ex_in_one" "\<not> IsAngleCorrected ex_in_raw"
    by (simp_all add: ex_in_raw_def ex_in_one_def esd_of_def)
  have c: "Multiplicity (snd (Filter ex_X ex_F ex_in_one False (esd_of []) 0)) (1, CHR ''I'', 0, 0) = 0.5"
    using pass_prefix [OF ex_st_ctl _ ex_scanned_0, of ex_X ex_F ex_in_one False "esd_of []" 0] one_scan
    by (simp add: Filter_def ring_of_def nstr_of_def ex_step_def)
  have d: "Multiplicity (snd (Filter ex_X ex_F ex_in_raw False (esd_of []) 0)) (1, CHR ''I'', 0, 0)
           = AngleCorrect 0.5 2"
    using pass_prefix [OF ex_st_ctl _ ex_scanned_0, of ex_X ex_F ex_in_raw False "esd_of []" 0] raw_scan
    by (simp add: Filter_def ring_of_def nstr_of_def ex_step_def)
  have f: "AngleCorrect 0.5 2 < 0.5" using AngleCorrect_half_2(2) by simp
  show ?thesis using s a b i e c d f by simp
qed

subsection \<open>Eta in the output\<close>

text \<open>
  C9 (amended). \<^verbatim>\<open>Filter\<close> copies the pseudorapidity of a strip from the input to the
  output only for the strips of sector 0 of each ring: \<^verbatim>\<open>SetEta\<close> is called for these
  strips alone. So the eta of the output object at an address is what \<^verbatim>\<open>Clear\<close> left
  there when no scanned strip of a sector 0 keeps its eta in the cell of that address
  (with one eta for every strip address, this is every strip of a sector \<open>s \<ge> 1\<close>);
  and it is the input's eta of the strip of sector 0 at every address kept in the cell
  of that strip (with one eta for every strip of a ring, this is the same strip of every
  sector). The multiplicity of every scanned strip is written: it is the same whatever
  \<^verbatim>\<open>Clear\<close> does and whatever the output object held.
\<close>

theorem Filter_copies_eta_in_sector_0:
  "(eta_untouched X a \<longrightarrow>
      Eta (snd (Filter X F input lowFlux out zvtx)) a = Eta (Clear X out) a)
   \<and> (scanned d q 0 t \<and> eta_cell_own X d q t \<and> EtaCell X b = EtaCell X (d, ring_of q, 0, t) \<longrightarrow>
      Eta (snd (Filter X F input lowFlux out zvtx)) b = Eta input (d, ring_of q, 0, t))
   \<and> (scanned d q s t \<longrightarrow>
      Multiplicity (snd (Filter X F input lowFlux out zvtx)) (d, ring_of q, s, t)
        = Multiplicity (snd (Filter (X\<lparr>Clear := c\<rparr>) F input lowFlux' out' zvtx)) (d, ring_of q, s, t))"
proof (intro conjI impI)
  assume "eta_untouched X a"
  then have "Eta (outp (fold (Filter_detector X F input zvtx) [1..<4] st0)) a = Eta (outp st0) a"
    for st0
    by (rule pass_keeps_eta)
  then show "Eta (snd (Filter X F input lowFlux out zvtx)) a = Eta (Clear X out) a"
    unfolding Filter_def Filter_pass_def snd_conv by simp
next
  assume "scanned d q 0 t \<and> eta_cell_own X d q t \<and> EtaCell X b = EtaCell X (d, ring_of q, 0, t)"
  then show "Eta (snd (Filter X F input lowFlux out zvtx)) b = Eta input (d, ring_of q, 0, t)"
    unfolding Filter_def Filter_pass_def snd_conv by (intro pass_copies_eta) simp_all
next
  assume "scanned d q s t"
  then show "Multiplicity (snd (Filter X F input lowFlux out zvtx)) (d, ring_of q, s, t)
        = Multiplicity (snd (Filter (X\<lparr>Clear := c\<rparr>) F input lowFlux' out' zvtx)) (d, ring_of q, s, t)"
    unfolding Filter_def Filter_pass_Clear snd_conv unfolding Filter_pass_def
    by (rule pass_writes_mult)
qed

lemma ex_cell_own: "eta_cell_own ex_X 1 0 0"
  by (auto simp add: eta_cell_own_def ex_X_def ring_of_def scanned_def split: if_splits)

theorem Filter_copies_eta_in_sector_0_witness:
  "eta_untouched ex_X_addr (1, CHR ''I'', 1, 0)
   \<and> Eta (snd (Filter ex_X_addr ex_F ex_in_rise False (esd_of []) 0)) (1, CHR ''I'', 1, 0)
       = Eta (Clear ex_X_addr (esd_of [])) (1, CHR ''I'', 1, 0)
   \<and> scanned 1 0 0 0 \<and> eta_cell_own ex_X 1 0 0
   \<and> EtaCell ex_X (1, CHR ''I'', 1, 0) = EtaCell ex_X (1, ring_of 0, 0, 0)
   \<and> Eta (snd (Filter ex_X ex_F ex_in_rise False (esd_of []) 0)) (1, CHR ''I'', 1, 0)
       = Eta ex_in_rise (1, ring_of 0, 0, 0)
   \<and> scanned 1 0 1 0
   \<and> Multiplicity (snd (Filter ex_X ex_F ex_in_rise False (esd_of []) 0)) (1, ring_of 0, 1, 0)
       = Multiplicity (snd (Filter (ex_X\<lparr>Clear := (\<lambda>e. e)\<rparr>) ex_F ex_in_rise True ex_in_one 0))
           (1, ring_of 0, 1, 0)"
proof -
  have h1: "eta_untouched ex_X_addr (1, CHR ''I'', 1, 0)"
    by (simp add: eta_untouched_def ex_X_addr_def)
  have h2: "scanned 1 0 0 0" by (rule ex_scanned_0)
  have h3: "eta_cell_own ex_X 1 0 0" by (rule ex_cell_own)
  have h4: "EtaCell ex_X (1, CHR ''I'', 1, 0) = EtaCell ex_X (1, ring_of 0, 0, 0)"
    by (simp add: ex_X_def ring_of_def)
  have h5: "scanned 1 0 1 0"
    by (simp add: scanned_def nsec_of_def nstr_of_def)
  have a: "Eta (snd (Filter ex_X_addr ex_F ex_in_rise False (esd_of []) 0)) (1, CHR ''I'', 1, 0)
       = Eta (Clear ex_X_addr (esd_of [])) (1, CHR ''I'', 1, 0)"
    using h1 Filter_copies_eta_in_sector_0 [where X = ex_X_addr and a = "(1, CHR ''I'', 1, 0)"
        and F = ex_F and input = ex_in_rise and lowFlux = False and out = "esd_of []" and zvtx = 0]
    by blast
  have b: "Eta (snd (Filter ex_X ex_F ex_in_rise False (esd_of []) 0)) (1, CHR ''I'', 1, 0)
       = Eta ex_in_rise (1, ring_of 0, 0, 0)"
    using h2 h3 h4 Filter_copies_eta_in_sector_0 [where X = ex_X and b = "(1, CHR ''I'', 1, 0)"
        and d = 1 and q = 0 and t = 0
        and F = ex_F and input = ex_in_rise and lowFlux = False and out = "esd_of []" and zvtx = 0]
    by blast
  have c: "Multiplicity (snd (Filter ex_X ex_F ex_in_rise False (esd_of []) 0)) (1, ring_of 0, 1, 0)
       = Multiplicity (snd (Filter (ex_X\<lparr>Clear := (\<lambda>e. e)\<rparr>) ex_F ex_in_rise True ex_in_one 0))
           (1, ring_of 0, 1, 0)"
    using h5 Filter_copies_eta_in_sector_0 [where X = ex_X and d = 1 and q = 0 and s = 1 and t = 0
        and F = ex_F and input = ex_in_rise and lowFlux = False and out = "esd_of []" and zvtx = 0
        and c = "\<lambda>e. e" and lowFlux' = True and out' = ex_in_one]
    by blast
  show ?thesis using h1 a h2 h3 h4 b h5 c by simp
qed

text \<open>
  The claim as stated fails where the eta map keeps one eta for every strip of a ring:
  the call of \<^verbatim>\<open>SetEta\<close> for strip 0 of sector 0 sets the eta that the output object
  returns for strip 0 of sector 1, which is then the input's eta (2) and not the value
  that \<^verbatim>\<open>Clear\<close> gave it.
\<close>

theorem Filter_eta_counterexample:
  "EtaCell ex_X (1, CHR ''I'', 1, 0) = EtaCell ex_X (1, CHR ''I'', 0, 0)
   \<and> Eta ex_in_rise (1, CHR ''I'', 0, 0) = 2
   \<and> Eta (Clear ex_X (esd_of [])) (1, CHR ''I'', 1, 0) = 10000000000
   \<and> Eta (snd (Filter ex_X ex_F ex_in_rise False (esd_of []) 0)) (1, CHR ''I'', 1, 0) = 2"
proof -
  have c: "EtaCell ex_X (1, CHR ''I'', 1, 0) = EtaCell ex_X (1, ring_of 0, 0, 0)"
    by (simp add: ex_X_def ring_of_def)
  have "Eta (outp (fold (Filter_detector ex_X ex_F ex_in_rise 0) [1..<4] st)) (1, CHR ''I'', 1, 0)
        = Eta ex_in_rise (1, ring_of 0, 0, 0)" for st
    using ex_scanned_0 c ex_cell_own by (rule pass_copies_eta)
  then have "Eta (snd (Filter ex_X ex_F ex_in_rise False (esd_of []) 0)) (1, CHR ''I'', 1, 0)
        = Eta ex_in_rise (1, ring_of 0, 0, 0)"
    unfolding Filter_def Filter_pass_def snd_conv by simp
  moreover have "Eta ex_in_rise (1, ring_of 0, 0, 0) = 2"
    by (simp add: ex_in_rise_def esd_of_def)
  moreover have "Eta (Clear ex_X (esd_of [])) (1, CHR ''I'', 1, 0) = 10000000000"
    by (simp add: ex_X_def)
  ultimately show ?thesis using c by (simp add: ring_of_def)
qed

subsection \<open>Clusters\<close>

lemma merge_clusters: "clusters (snd (merge F d r v st)) = clusters st"
  by (simp add: merge_def Let_def)

lemma AngleCorrect_0: "AngleCorrect 0 e = 0"
  by (simp add: AngleCorrect_def)

lemma strip_step_clusters:
  "clusters (strip_step X F input zvtx d r s nstr t st) = clusters st @
     (let v = read_strip X F input zvtx d r s nstr t in
      if noise X v then
        (if eTotal st > 0 \<and> t > 0 then [the_cluster KFlushed d r s t (eTotal st)] else [])
      else (case fst (merge F d r v st) of
              Continue \<Rightarrow> []
            | Merged etot None \<Rightarrow> []
            | Merged etot (Some k) \<Rightarrow>
                [the_cluster k d r s t
                   (if fCorrectAngles F then etot else AngleCorrect etot (s_eta v))]))"
proof (cases "noise X (read_strip X F input zvtx d r s nstr t)")
  case True
  then show ?thesis
    by (simp add: noise_def strip_step_def Let_def the_cluster_def)
next
  case False
  obtain oc st' where m: "merge F d r (read_strip X F input zvtx d r s nstr t) st = (oc, st')"
    by (cases "merge F d r (read_strip X F input zvtx d r s nstr t) st")
  have c: "clusters st' = clusters st"
    using merge_clusters [of F d r "read_strip X F input zvtx d r s nstr t" st] m by simp
  show ?thesis
  proof (cases oc)
    case Continue
    then show ?thesis
      using False m c by (simp add: noise_def strip_step_def Let_def)
  next
    case (Merged etot k)
    then show ?thesis
      using False m c by (cases k) (simp_all add: noise_def strip_step_def Let_def the_cluster_def)
  qed
qed

text \<open>The paths through the merging decision.\<close>

lemma merge_paths:
  "(fst (merge F d r v st), ctl (snd (merge F d r v st))) =
     (let low = GetLowCut F d r (s_eta v); high = GetHighCut F d r (s_eta v) False in
      if eTotal st > 0 then
        (if fThreeStripSharing F \<and> s_multNext v > low \<and> (s_multNext v < high \<or> twoLow st)
         then (Merged (eTotal st + s_multNext v) (Some KTriple), (True, - 1, False))
         else (Merged (eTotal st) (Some KDoublePrev), (False, - 1, twoLow st)))
      else if used st then (Continue, (False, eTotal st, twoLow st))
      else if s_mult v > low \<and> s_multNext v > low \<and> (s_mult v < high \<or> s_multNext v < high) then
        (if s_mult v > s_multNext v \<and> s_multNextNext v < low
         then (Merged (s_mult v + s_multNext v) (Some KDoubleNext),
               (True, eTotal st, (s_mult v < high \<and> s_multNext v < high) \<or> twoLow st))
         else (Merged 0 None,
               (False, s_mult v + s_multNext v, (s_mult v < high \<and> s_multNext v < high) \<or> twoLow st)))
      else if s_mult v > low \<and> s_mult v > 0
      then (Merged (s_mult v) (Some KSingle), (False, eTotal st, twoLow st))
      else (Merged (if s_mult v > low then s_mult v else 0) None, (False, eTotal st, twoLow st)))"
  by (auto simp add: merge_def ctl_def Let_def)

lemma s_multNext_read_strip:
  assumes "nstr \<le> t + 1"
  shows "s_multNext (read_strip X F input zvtx d r s nstr t) = 0"
proof -
  define m where "m = SignalInStrip X F input d r s t"
  define n1 where "n1 = (if t + 1 < nstr then SignalInStrip X F input d r s (t + 1) else 0)"
  define n2 where "n2 = (if t + 2 < nstr then SignalInStrip X F input d r s (t + 2) else 0)"
  define N where "N = (if n1 = kInvalidMult X then 0 else n1)"
  define N2 where "N2 = (if n2 = kInvalidMult X then 0 else n2)"
  define N3 where "N3 = (if \<not> fThreeStripSharing F then 0 else N2)"
  define corr where
    "corr = ETA2COS (GetEtaFromStrip X d r s t zvtx) / ETA2COS (Eta input (d, r, s, t))"
  define v1 where "v1 =
     (if fRecalculateEta F then
        (if m > 0 \<and> m \<noteq> kInvalidMult X then
           \<lparr>s_mult = m * corr, s_multNext = N * corr, s_multNextNext = N3 * corr,
            s_eta = GetEtaFromStrip X d r s t zvtx\<rparr>
         else \<lparr>s_mult = m, s_multNext = N, s_multNextNext = N3,
               s_eta = GetEtaFromStrip X d r s t zvtx\<rparr>)
      else \<lparr>s_mult = m, s_multNext = N, s_multNextNext = N3, s_eta = Eta input (d, r, s, t)\<rparr>)"
  define v2 where
    "v2 = (if s_mult v1 = kInvalidMult X \<and> fInvalidIsEmpty F then v1\<lparr>s_mult := 0\<rparr> else v1)"
  have rs: "read_strip X F input zvtx d r s nstr t
            = (if s_mult v2 = kInvalidMult X \<or> IsDead X F d r s t
               then v2\<lparr>s_mult := kInvalidMult X\<rparr> else v2)"
    unfolding read_strip_def Let_def v2_def v1_def corr_def N3_def N2_def N_def n2_def n1_def m_def
    by (rule refl)
  have "N = 0" using assms by (simp add: N_def n1_def)
  then have "s_multNext v1 = 0" by (simp add: v1_def)
  then have "s_multNext v2 = 0" by (simp add: v2_def)
  then show ?thesis by (simp add: rs)
qed

lemma strip_step_paths:
  fixes X F input zvtx d r s nstr t st
  defines "v \<equiv> read_strip X F input zvtx d r s nstr t"
    and "st' \<equiv> strip_step X F input zvtx d r s nstr t st"
    and "W \<equiv> \<lambda>e. if fCorrectAngles F then e
                 else AngleCorrect e (s_eta (read_strip X F input zvtx d r s nstr t))"
  obtains
    (flush) "noise X v" "0 < eTotal st" "0 < t" "ctl st' = (False, - 1, False)"
      "clusters st' = clusters st @ [the_cluster KFlushed d r s t (eTotal st)]"
      "Multiplicity (outp st') (d, r, s, t) = neighbour_value X F input zvtx d r s nstr t"
  | (reset) "noise X v" "\<not> (0 < eTotal st \<and> 0 < t)" "ctl st' = (False, - 1, False)"
      "clusters st' = clusters st"
      "Multiplicity (outp st') (d, r, s, t) = neighbour_value X F input zvtx d r s nstr t"
  | (triple) "\<not> noise X v" "0 < eTotal st" "ctl st' = (True, - 1, False)"
      "GetLowCut F d r (s_eta v) < s_multNext v"
      "clusters st' = clusters st @ [the_cluster KTriple d r s t (W (eTotal st + s_multNext v))]"
      "Multiplicity (outp st') (d, r, s, t) = W (eTotal st + s_multNext v)"
  | (double) "\<not> noise X v" "0 < eTotal st" "ctl st' = (False, - 1, twoLow st)"
      "clusters st' = clusters st @ [the_cluster KDoublePrev d r s t (W (eTotal st))]"
      "Multiplicity (outp st') (d, r, s, t) = W (eTotal st)"
  | (skip) "\<not> noise X v" "\<not> 0 < eTotal st" "used st" "ctl st' = (False, eTotal st, twoLow st)"
      "clusters st' = clusters st"
      "Multiplicity (outp st') (d, r, s, t) = 0"
  | (at_once) "\<not> noise X v" "\<not> 0 < eTotal st" "\<not> used st" "used st'" "eTotal st' = eTotal st"
      "GetLowCut F d r (s_eta v) < s_multNext v"
      "clusters st' = clusters st @ [the_cluster KDoubleNext d r s t (W (s_mult v + s_multNext v))]"
      "Multiplicity (outp st') (d, r, s, t) = W (s_mult v + s_multNext v)"
  | (pending) "\<not> noise X v" "\<not> 0 < eTotal st" "\<not> used st" "\<not> used st'"
      "clusters st' = clusters st"
      "Multiplicity (outp st') (d, r, s, t) = 0"
  | (single) "\<not> noise X v" "\<not> 0 < eTotal st" "\<not> used st" "\<not> used st'" "eTotal st' = eTotal st"
      "clusters st' = clusters st @ [the_cluster KSingle d r s t (W (s_mult v))]"
      "Multiplicity (outp st') (d, r, s, t) = W (s_mult v)"
  | (nothing) "\<not> noise X v" "\<not> 0 < eTotal st" "\<not> used st" "\<not> used st'" "eTotal st' = eTotal st"
      "clusters st' = clusters st"
proof (cases "noise X v")
  case True
  have c: "ctl st' = (False, - 1, False)"
    using True by (simp add: st'_def v_def strip_step_ctl Let_def)
  have m: "Multiplicity (outp st') (d, r, s, t) = neighbour_value X F input zvtx d r s nstr t"
    using True by (simp add: st'_def v_def strip_step_mult_at neighbour_value_def Let_def)
  show ?thesis
  proof (cases "0 < eTotal st \<and> 0 < t")
    case True
    then show ?thesis
      using \<open>noise X v\<close> c m flush by (simp add: st'_def v_def strip_step_clusters Let_def)
  next
    case False
    then show ?thesis
      using \<open>noise X v\<close> c m reset by (simp add: st'_def v_def strip_step_clusters Let_def)
  qed
next
  case False
  let ?oc = "fst (merge F d r v st)"
  let ?cs = "ctl (snd (merge F d r v st))"
  have c: "ctl st' = ?cs"
    using False by (simp add: st'_def v_def strip_step_ctl Let_def)
  have m: "Multiplicity (outp st') (d, r, s, t)
           = (case ?oc of Continue \<Rightarrow> 0 | Merged etot k \<Rightarrow> W etot)"
    using False by (simp add: st'_def v_def W_def strip_step_mult_at Let_def split: outcome.splits)
  have l: "clusters st' = clusters st @
           (case ?oc of Continue \<Rightarrow> [] | Merged etot None \<Rightarrow> []
            | Merged etot (Some k) \<Rightarrow> [the_cluster k d r s t (W etot)])"
    using False by (simp add: st'_def v_def W_def strip_step_clusters Let_def
        split: outcome.splits option.splits)
  have w0: "W 0 = 0" by (simp add: W_def AngleCorrect_0)
  note mp = merge_paths [of F d r v st, unfolded Let_def prod.inject]
  consider
    (a) "?oc = Merged (eTotal st + s_multNext v) (Some KTriple)" "?cs = (True, - 1, False)" "0 < eTotal st"
      "GetLowCut F d r (s_eta v) < s_multNext v"
  | (b) "?oc = Merged (eTotal st) (Some KDoublePrev)" "?cs = (False, - 1, twoLow st)" "0 < eTotal st"
  | (c) "?oc = Continue" "?cs = (False, eTotal st, twoLow st)" "\<not> 0 < eTotal st" "used st"
  | (d) "?oc = Merged (s_mult v + s_multNext v) (Some KDoubleNext)" "fst ?cs" "fst (snd ?cs) = eTotal st"
      "\<not> 0 < eTotal st" "\<not> used st" "GetLowCut F d r (s_eta v) < s_multNext v"
  | (e) "?oc = Merged 0 None" "\<not> fst ?cs" "\<not> 0 < eTotal st" "\<not> used st"
  | (f) "?oc = Merged (s_mult v) (Some KSingle)" "?cs = (False, eTotal st, twoLow st)"
      "\<not> 0 < eTotal st" "\<not> used st"
  | (g) "\<exists>e. ?oc = Merged e None" "?cs = (False, eTotal st, twoLow st)" "\<not> 0 < eTotal st" "\<not> used st"
    using mp by (auto split: if_splits)
  then show ?thesis
  proof cases
    case a
    then show ?thesis using False c m l triple by simp
  next
    case b
    then show ?thesis using False c m l double by simp
  next
    case c
    then show ?thesis using False \<open>ctl st' = ?cs\<close> m l skip by simp
  next
    case d
    then show ?thesis using False c m l at_once by (simp add: ctl_def)
  next
    case e
    then show ?thesis using False c m l w0 pending by (simp add: ctl_def)
  next
    case f
    then show ?thesis using False c m l single by (simp add: ctl_def)
  next
    case g
    show ?thesis
      by (rule nothing) (use g False c l in \<open>auto simp add: ctl_def\<close>)
  qed
qed

lemma ctl_inv_step:
  assumes "ctl_inv X F input zvtx d r s nstr t st"
  shows "ctl_inv X F input zvtx d r s nstr (Suc t) (strip_step X F input zvtx d r s nstr t st)"
proof (cases rule: strip_step_paths [of X F input zvtx d r s nstr t st])
  case pending
  then show ?thesis by (simp add: ctl_inv_def)
qed (use assms in \<open>simp_all add: ctl_inv_def ctl_def\<close>)

lemma strips_of_bounds:
  assumes "p \<in> set (strips_of c)"
  shows "p \<le> c_strip c + 1" and "emit_strip c \<le> c_strip c"
  using assms by (auto simp add: strips_of_def emit_strip_def split: kind.splits)

lemma progress_old:
  assumes ci: "ctl_inv X F input zvtx d r s nstr t st"
    and pr: "progress X F input zvtx nstr t st c"
    and sec: "(c_det c, c_ring c, c_sec c) = (d, r, s)"
  shows "progress X F input zvtx nstr (Suc t) (strip_step X F input zvtx d r s nstr t st) c"
proof -
  let ?st' = "strip_step X F input zvtx d r s nstr t st"
  have w: "Multiplicity (outp ?st') (d, r, s, p) =
           (if p = emit_strip c then c_amp c else neighbour_value X F input zvtx d r s nstr p)"
    if p: "p \<in> set (strips_of c)" and lt: "p < Suc t" for p
  proof (cases "p = t")
    case False
    then have "p < t" using lt by simp
    moreover have "\<not> (0 < eTotal st \<and> p = t - 1)"
      using pr p by (auto simp add: progress_def)
    ultimately show ?thesis
      using pr p sec False by (auto simp add: progress_def cluster_written_def strip_step_mult_before)
  next
    case True
    then have u: "used st" and ne: "\<not> 0 < eTotal st"
      using pr p ci by (auto simp add: progress_def ctl_inv_def)
    have em: "p \<noteq> emit_strip c"
      using strips_of_bounds(2) [OF p] pr True by (simp add: progress_def)
    show ?thesis
    proof (cases rule: strip_step_paths [of X F input zvtx d r s nstr t st])
      case skip
      then show ?thesis using True em by (simp add: neighbour_value_def noise_def)
    qed (use u ne True em in simp_all)
  qed
  have b: "(Suc t \<le> p \<longrightarrow> p = Suc t \<and> used ?st') \<and> (0 < eTotal ?st' \<longrightarrow> p + 1 < Suc t)"
    if p: "p \<in> set (strips_of c)" for p
  proof -
    have le: "p \<le> t"
      using strips_of_bounds(1) [OF p] pr by (simp add: progress_def)
    have "p < t" if "0 < eTotal ?st'"
    proof (cases rule: strip_step_paths [of X F input zvtx d r s nstr t st])
      case pending
      then show ?thesis using pr p le by (auto simp add: progress_def)
    qed (use that ci in \<open>simp_all add: ctl_def ctl_inv_def\<close>)
    then show ?thesis using le by auto
  qed
  show ?thesis
    using pr w b sec by (auto simp add: progress_def cluster_written_def)
qed

lemma progress_new:
  assumes ci: "ctl_inv X F input zvtx d r s nstr t st"
    and new: "clusters (strip_step X F input zvtx d r s nstr t st) = clusters st @ [c]"
  shows "progress X F input zvtx nstr (Suc t) (strip_step X F input zvtx d r s nstr t st) c
         \<and> (c_det c, c_ring c, c_sec c) = (d, r, s)"
proof (cases rule: strip_step_paths [of X F input zvtx d r s nstr t st])
  case flush
  then have c: "c = the_cluster KFlushed d r s t (eTotal st)" using new by simp
  have "Multiplicity (outp (strip_step X F input zvtx d r s nstr t st)) (d, r, s, t - 1) = eTotal st"
    using flush by (simp add: strip_step_mult_before)
  then show ?thesis
    using flush
    by (auto simp add: c progress_def the_cluster_def starts_before_def cluster_written_def
        strips_of_def emit_strip_def ctl_def reaches_next_def)
next
  case triple
  then have c: "c = the_cluster KTriple d r s t
       ((if fCorrectAngles F then eTotal st + s_multNext (read_strip X F input zvtx d r s nstr t)
         else AngleCorrect (eTotal st + s_multNext (read_strip X F input zvtx d r s nstr t))
                (s_eta (read_strip X F input zvtx d r s nstr t))))"
    using new by simp
  have p: "1 \<le> t" "Multiplicity (outp st) (d, r, s, t - 1) = 0"
    "neighbour_value X F input zvtx d r s nstr (t - 1) = 0"
    using ci triple by (auto simp add: ctl_inv_def neighbour_value_def noise_def)
  have n: "t + 1 < nstr \<or> GetLowCut F d r (s_eta (read_strip X F input zvtx d r s nstr t)) < 0"
    using triple(4) s_multNext_read_strip [of nstr t X F input zvtx d r s] by (cases "t + 1 < nstr") auto
  have "Multiplicity (outp (strip_step X F input zvtx d r s nstr t st)) (d, r, s, t - 1) = 0"
    using triple p by (simp add: strip_step_mult_before)
  then show ?thesis
    using triple p n
    by (auto simp add: c progress_def the_cluster_def starts_before_def cluster_written_def
        strips_of_def emit_strip_def ctl_def reaches_next_def)
next
  case double
  then have c: "c = the_cluster KDoublePrev d r s t
       ((if fCorrectAngles F then eTotal st
         else AngleCorrect (eTotal st) (s_eta (read_strip X F input zvtx d r s nstr t))))"
    using new by simp
  have p: "1 \<le> t" "Multiplicity (outp st) (d, r, s, t - 1) = 0"
    "neighbour_value X F input zvtx d r s nstr (t - 1) = 0"
    using ci double by (auto simp add: ctl_inv_def neighbour_value_def noise_def)
  have "Multiplicity (outp (strip_step X F input zvtx d r s nstr t st)) (d, r, s, t - 1) = 0"
    using double p by (simp add: strip_step_mult_before)
  then show ?thesis
    using double p
    by (auto simp add: c progress_def the_cluster_def starts_before_def cluster_written_def
        strips_of_def emit_strip_def ctl_def reaches_next_def)
next
  case at_once
  then have c: "c = the_cluster KDoubleNext d r s t
       ((if fCorrectAngles F
         then s_mult (read_strip X F input zvtx d r s nstr t) + s_multNext (read_strip X F input zvtx d r s nstr t)
         else AngleCorrect (s_mult (read_strip X F input zvtx d r s nstr t)
                + s_multNext (read_strip X F input zvtx d r s nstr t))
                (s_eta (read_strip X F input zvtx d r s nstr t))))"
    using new by simp
  have n: "t + 1 < nstr \<or> GetLowCut F d r (s_eta (read_strip X F input zvtx d r s nstr t)) < 0"
    using at_once(6) s_multNext_read_strip [of nstr t X F input zvtx d r s] by (cases "t + 1 < nstr") auto
  show ?thesis
    using at_once n
    by (auto simp add: c progress_def the_cluster_def starts_before_def cluster_written_def
        strips_of_def emit_strip_def reaches_next_def)
next
  case single
  then have c: "c = the_cluster KSingle d r s t
       ((if fCorrectAngles F then s_mult (read_strip X F input zvtx d r s nstr t)
         else AngleCorrect (s_mult (read_strip X F input zvtx d r s nstr t))
                (s_eta (read_strip X F input zvtx d r s nstr t))))"
    using new by simp
  show ?thesis
    using single
    by (auto simp add: c progress_def the_cluster_def starts_before_def cluster_written_def
        strips_of_def emit_strip_def reaches_next_def)
qed (use new in simp_all)

lemma strip_step_adds:
  "clusters (strip_step X F input zvtx d r s nstr t st) = clusters st
   \<or> (\<exists>c. clusters (strip_step X F input zvtx d r s nstr t st) = clusters st @ [c])"
  by (cases rule: strip_step_paths [of X F input zvtx d r s nstr t st]) simp_all

lemma cluster_written_other:
  assumes "(c_det c, c_ring c, c_sec c) \<noteq> (d, r, s)"
  shows "cluster_written X F input zvtx (outp (strip_step X F input' zvtx' d r s nstr t st)) n b c
         = cluster_written X F input zvtx (outp st) n b c"
proof -
  have "Multiplicity (outp (strip_step X F input' zvtx' d r s nstr t st)) (c_det c, c_ring c, c_sec c, p)
        = Multiplicity (outp st) (c_det c, c_ring c, c_sec c, p)" for p
    using assms by (intro strip_step_mult_other) auto
  then show ?thesis by (simp add: cluster_written_def)
qed

lemma fold_upt_inv:
  assumes "m \<le> n" and "I m st"
    and "\<And>t st. m \<le> t \<Longrightarrow> t < n \<Longrightarrow> I t st \<Longrightarrow> I (Suc t) (f t st)"
  shows "I n (fold f [m..<n] st)"
  using assms
proof (induction n)
  case 0
  then show ?case by simp
next
  case (Suc n)
  show ?case
  proof (cases "m \<le> n")
    case True
    have "I n (fold f [m..<n] st)"
      using True Suc.prems by (intro Suc.IH) auto
    then have "I (Suc n) (f n (fold f [m..<n] st))"
      using True by (intro Suc.prems(3)) auto
    then show ?thesis using True by simp
  next
    case False
    then have "m = Suc n" using Suc.prems(1) by simp
    then show ?thesis using Suc.prems(2) by simp
  qed
qed

lemma scan_inv_step:
  assumes "scan_inv X F input zvtx d q s t st"
  shows "scan_inv X F input zvtx d q s (Suc t)
           (strip_step X F input zvtx d (ring_of q) s (nstr_of q) t st)"
proof -
  let ?st' = "strip_step X F input zvtx d (ring_of q) s (nstr_of q) t st"
  have ci: "ctl_inv X F input zvtx d (ring_of q) s (nstr_of q) t st"
    using assms by (simp add: scan_inv_def)
  have old: "if (c_det c, c_ring c, c_sec c) = (d, ring_of q, s)
            then progress X F input zvtx (nstr_of q) (Suc t) ?st' c
            else (c_det c, c_ring c, c_sec c) \<in> done_before d q s
                 \<and> (\<exists>q'. cluster_ok X F input zvtx (outp ?st') q' c)"
    if c: "c \<in> set (clusters st)" for c
  proof (cases "(c_det c, c_ring c, c_sec c) = (d, ring_of q, s)")
    case True
    then have "progress X F input zvtx (nstr_of q) t st c"
      using assms c by (auto simp add: scan_inv_def)
    then show ?thesis using True ci by (simp add: progress_old)
  next
    case False
    then have "(c_det c, c_ring c, c_sec c) \<in> done_before d q s
               \<and> (\<exists>q'. cluster_ok X F input zvtx (outp st) q' c)"
      using assms c by (auto simp add: scan_inv_def)
    moreover have "cluster_ok X F input zvtx (outp ?st') q' c = cluster_ok X F input zvtx (outp st) q' c"
      for q'
      by (simp add: cluster_ok_def cluster_written_other [OF False])
    ultimately show ?thesis
      unfolding if_not_P [OF False] by simp
  qed
  have "\<forall>c\<in>set (clusters ?st').
            if (c_det c, c_ring c, c_sec c) = (d, ring_of q, s)
            then progress X F input zvtx (nstr_of q) (Suc t) ?st' c
            else (c_det c, c_ring c, c_sec c) \<in> done_before d q s
                 \<and> (\<exists>q'. cluster_ok X F input zvtx (outp ?st') q' c)"
    using strip_step_adds [of X F input zvtx d "ring_of q" s "nstr_of q" t st]
  proof
    assume "clusters ?st' = clusters st"
    then show ?thesis using old by simp
  next
    assume "\<exists>c. clusters ?st' = clusters st @ [c]"
    then obtain c where c: "clusters ?st' = clusters st @ [c]" ..
    have "progress X F input zvtx (nstr_of q) (Suc t) ?st' c
          \<and> (c_det c, c_ring c, c_sec c) = (d, ring_of q, s)"
      using ci c by (rule progress_new)
    then show ?thesis using old c by auto
  qed
  then show ?thesis
    using ctl_inv_step [OF ci] by (simp add: scan_inv_def)
qed

lemma ring_of_below: "q < 2 \<Longrightarrow> q' < q \<Longrightarrow> ring_of q' \<noteq> ring_of q"
  by (auto simp add: ring_of_def)

lemma sector_clusters:
  assumes ok: "sectors_ok X F input zvtx (done_before d q s) st"
    and d: "1 \<le> d" "d \<le> 3" and q: "q < (if d = 1 then 1 else 2)" and s: "s < nsec_of q"
  shows "sectors_ok X F input zvtx (done_before d q (Suc s))
           (Filter_sector X F input zvtx d (ring_of q) (nstr_of q) s st)"
proof -
  have q2: "q < 2" using q by (auto split: if_splits)
  have "ring_of q \<noteq> ring_of q'" if "q' < q" for q'
    using ring_of_below [OF q2 that] by simp
  then have notin: "(d, ring_of q, s) \<notin> done_before d q s"
    by (auto simp add: done_before_def)
  have init: "scan_inv X F input zvtx d q s 0 (sector_init st)"
    using ok notin
    by (auto simp add: scan_inv_def ctl_inv_def sectors_ok_def sector_init_def)
  have fin: "scan_inv X F input zvtx d q s (nstr_of q)
               (fold (strip_step X F input zvtx d (ring_of q) s (nstr_of q)) [0..<nstr_of q] (sector_init st))"
    using init by (intro fold_upt_inv [where I = "scan_inv X F input zvtx d q s"] scan_inv_step) simp_all
  have mono: "done_before d q s \<subseteq> done_before d q (Suc s)"
    "(d, ring_of q, s) \<in> done_before d q (Suc s)"
    by (auto simp add: done_before_def)
  show ?thesis
    unfolding sectors_ok_def Filter_sector_def
  proof
    fix c
    assume c: "c \<in> set (clusters (fold (strip_step X F input zvtx d (ring_of q) s (nstr_of q))
                   [0..<nstr_of q] (sector_init st)))"
    let ?st' = "fold (strip_step X F input zvtx d (ring_of q) s (nstr_of q)) [0..<nstr_of q] (sector_init st)"
    show "(c_det c, c_ring c, c_sec c) \<in> done_before d q (Suc s)
          \<and> (\<exists>q'. cluster_ok X F input zvtx (outp ?st') q' c)"
    proof (cases "(c_det c, c_ring c, c_sec c) = (d, ring_of q, s)")
      case True
      then have "progress X F input zvtx (nstr_of q) (nstr_of q) ?st' c"
        using fin c by (auto simp add: scan_inv_def)
      then have "cluster_ok X F input zvtx (outp ?st') q c"
        using True d q s by (auto simp add: progress_def cluster_ok_def scanned_def)
      then show ?thesis using True mono(2) by auto
    next
      case False
      then show ?thesis using fin c mono(1) by (auto simp add: scan_inv_def)
    qed
  qed
qed

lemma sectors_ok_mono:
  assumes "sectors_ok X F input zvtx S st" and "S \<subseteq> S'"
  shows "sectors_ok X F input zvtx S' st"
  using assms by (auto simp add: sectors_ok_def)

lemma ring_clusters:
  assumes ok: "sectors_ok X F input zvtx (done_before d q 0) st"
    and d: "1 \<le> d" "d \<le> 3" and q: "q < (if d = 1 then 1 else 2)"
  shows "sectors_ok X F input zvtx (done_before d (Suc q) 0) (Filter_ring X F input zvtx d q st)"
proof -
  have "sectors_ok X F input zvtx (done_before d q (nsec_of q))
          (fold (Filter_sector X F input zvtx d (ring_of q) (nstr_of q)) [0..<nsec_of q] st)"
    using ok d q
    by (intro fold_upt_inv [where I = "\<lambda>k. sectors_ok X F input zvtx (done_before d q k)"]
        sector_clusters) simp_all
  moreover have "done_before d q (nsec_of q) \<subseteq> done_before d (Suc q) 0"
    by (fastforce simp add: done_before_def less_Suc_eq)
  ultimately show ?thesis
    unfolding Filter_ring_def Let_def by (rule sectors_ok_mono)
qed

lemma detector_clusters:
  assumes ok: "sectors_ok X F input zvtx (done_before d 0 0) st"
    and d: "1 \<le> d" "d \<le> 3"
  shows "sectors_ok X F input zvtx (done_before (Suc d) 0 0) (Filter_detector X F input zvtx d st)"
proof -
  have "sectors_ok X F input zvtx (done_before d (if d = 1 then 1 else 2) 0)
          (fold (Filter_ring X F input zvtx d) [0..<if d = 1 then 1 else 2] st)"
    using ok d
    by (intro fold_upt_inv [where I = "\<lambda>k. sectors_ok X F input zvtx (done_before d k 0)"]
        ring_clusters) simp_all
  moreover have "done_before d (if d = 1 then 1 else 2) 0 \<subseteq> done_before (Suc d) 0 0"
    by (auto simp add: done_before_def)
  ultimately show ?thesis
    unfolding Filter_detector_def Let_def by (rule sectors_ok_mono)
qed

lemma pass_clusters:
  "sectors_ok X F input zvtx (done_before 4 0 0) (Filter_pass X F input lowFlux out zvtx)"
  unfolding Filter_pass_def
  by (intro fold_upt_inv [where I = "\<lambda>k. sectors_ok X F input zvtx (done_before k 0 0)"]
      detector_clusters) (simp_all add: sectors_ok_def)

lemma strips_consecutive:
  assumes "starts_before c \<longrightarrow> 1 \<le> c_strip c"
  shows "\<exists>a n. strips_of c = [a..<a + n] \<and> (n = 1 \<or> n = 2 \<or> n = 3)"
proof -
  have u: "[k..<k + 1] = [k]" "[k..<k + 2] = [k, Suc k]" "[k..<k + 3] = [k, Suc k, Suc (Suc k)]"
    for k :: nat
    by (simp_all add: upt_rec [of k] upt_rec [of "Suc k"] upt_rec [of "Suc (Suc k)"])
  show ?thesis
  proof (cases "starts_before c")
    case False
    then have "strips_of c = [c_strip c..<c_strip c + 1] \<or> strips_of c = [c_strip c..<c_strip c + 2]"
      unfolding u by (auto simp add: strips_of_def starts_before_def split: kind.splits)
    then show ?thesis by blast
  next
    case True
    then obtain k where k: "c_strip c = Suc k"
      using assms by (cases "c_strip c") auto
    have "strips_of c = [k..<k + 2] \<or> strips_of c = [k..<k + 3]"
      unfolding u using True k by (auto simp add: strips_of_def starts_before_def split: kind.splits)
    then show ?thesis by blast
  qed
qed

text \<open>
  C4 (amended). Every cluster formed by \<^verbatim>\<open>Filter\<close> consists of 1, 2 or 3 consecutive strips
  of one scanned sector (all of them strips of the sector when the low cut is not
  negative), and at the end of the pass the output holds its merged amplitude at exactly
  one of these strips, while at every other strip of the cluster it holds 0, or
  \<^verbatim>\<open>kInvalidMult\<close> where that strip is itself invalid or flagged dead.
\<close>

theorem Filter_clusters:
  assumes "c \<in> set (clusters (Filter_pass X F input lowFlux out zvtx))"
  shows "\<exists>q a n.
           c_ring c = ring_of q \<and> scanned (c_det c) q (c_sec c) (c_strip c)
         \<and> strips_of c = [a..<a + n] \<and> (n = 1 \<or> n = 2 \<or> n = 3)
         \<and> emit_strip c \<in> set (strips_of c) \<and> emit_strip c < nstr_of q
         \<and> (0 \<le> GetLowCut F (c_det c) (c_ring c)
                  (s_eta (read_strip X F input zvtx (c_det c) (c_ring c) (c_sec c) (nstr_of q) (c_strip c)))
              \<longrightarrow> (\<forall>p\<in>set (strips_of c). p < nstr_of q))
         \<and> (\<forall>p\<in>set (strips_of c). p < nstr_of q \<longrightarrow>
              Multiplicity (snd (Filter X F input lowFlux out zvtx)) (c_det c, c_ring c, c_sec c, p)
              = (if p = emit_strip c then c_amp c
                 else if s_mult (read_strip X F input zvtx (c_det c) (c_ring c) (c_sec c) (nstr_of q) p)
                         = kInvalidMult X
                      then kInvalidMult X else 0))"
proof -
  obtain q where ok: "cluster_ok X F input zvtx (outp (Filter_pass X F input lowFlux out zvtx)) q c"
    using assms pass_clusters [of X F input zvtx lowFlux out] by (auto simp add: sectors_ok_def)
  then have sb: "starts_before c \<longrightarrow> 1 \<le> c_strip c"
    and lt: "c_strip c < nstr_of q"
    by (simp_all add: cluster_ok_def scanned_def)
  obtain a n where an: "strips_of c = [a..<a + n]" "n = 1 \<or> n = 2 \<or> n = 3"
    using strips_consecutive [OF sb] by blast
  have em: "emit_strip c \<in> set (strips_of c)" "emit_strip c < nstr_of q"
    using lt by (auto simp add: emit_strip_def strips_of_def split: kind.splits)
  have inr: "\<forall>p\<in>set (strips_of c). p < nstr_of q"
    if "0 \<le> GetLowCut F (c_det c) (c_ring c)
                  (s_eta (read_strip X F input zvtx (c_det c) (c_ring c) (c_sec c) (nstr_of q) (c_strip c)))"
    using that ok lt
    by (auto simp add: cluster_ok_def reaches_next_def strips_of_def split: kind.splits)
  have wr: "\<forall>p\<in>set (strips_of c). p < nstr_of q \<longrightarrow>
              Multiplicity (snd (Filter X F input lowFlux out zvtx)) (c_det c, c_ring c, c_sec c, p)
              = (if p = emit_strip c then c_amp c
                 else if s_mult (read_strip X F input zvtx (c_det c) (c_ring c) (c_sec c) (nstr_of q) p)
                         = kInvalidMult X
                      then kInvalidMult X else 0)"
    using ok unfolding cluster_ok_def cluster_written_def neighbour_value_def Filter_def snd_conv
    by blast
  show ?thesis
    using ok an em inr wr by (intro exI [of _ q] exI [of _ a] exI [of _ n]) (simp add: cluster_ok_def)
qed

lemma cluster_stays:
  assumes "c \<in> set (clusters st)"
  shows "c \<in> set (clusters (strip_step X F input zvtx d r s nstr t st))"
  using assms strip_step_adds [of X F input zvtx d r s nstr t st] by auto

lemma cluster_stays_sector:
  assumes "c \<in> set (clusters st)"
  shows "c \<in> set (clusters (Filter_sector X F input zvtx d r nstr s st))"
  unfolding Filter_sector_def
  by (rule fold_invariant [where Q = "\<lambda>x. True"]) (use assms in \<open>simp_all add: sector_init_def cluster_stays\<close>)

lemma cluster_stays_ring:
  assumes "c \<in> set (clusters st)"
  shows "c \<in> set (clusters (Filter_ring X F input zvtx d q st))"
  unfolding Filter_ring_def Let_def
  by (rule fold_invariant [where Q = "\<lambda>x. True"]) (use assms in \<open>simp_all add: cluster_stays_sector\<close>)

lemma cluster_stays_detector:
  assumes "c \<in> set (clusters st)"
  shows "c \<in> set (clusters (Filter_detector X F input zvtx d st))"
  unfolding Filter_detector_def Let_def
  by (rule fold_invariant [where Q = "\<lambda>x. True"]) (use assms in \<open>simp_all add: cluster_stays_ring\<close>)

text \<open>A cluster formed at the first strip of the first sector is in the record at the end.\<close>

lemma first_strip_cluster:
  assumes "c \<in> set (clusters (strip_step X F input zvtx 1 CHR ''I'' 0 512 0
             \<lparr>used = False, eTotal = - 1, twoLow = False, outp = Clear X out,
              nSingle = 0, nDouble = 0, nTriple = 0, clusters = []\<rparr>))"
  shows "c \<in> set (clusters (Filter_pass X F input lowFlux out zvtx))"
proof -
  let ?st0 = "\<lparr>used = False, eTotal = - 1, twoLow = False, outp = Clear X out,
              nSingle = 0, nDouble = 0, nTriple = 0, clusters = []\<rparr>"
  let ?step = "strip_step X F input zvtx 1 CHR ''I'' 0 512"
  have i: "sector_init ?st0 = ?st0" by (simp add: sector_init_def)
  have "Filter_sector X F input zvtx 1 CHR ''I'' 512 0 ?st0 = fold ?step [1..<512] (?step 0 ?st0)"
    unfolding Filter_sector_def i by (subst upt_conv_Cons) simp_all
  moreover have "c \<in> set (clusters (fold ?step [1..<512] (?step 0 ?st0)))"
    by (rule fold_invariant [where Q = "\<lambda>x. True"]) (use assms in \<open>simp_all add: cluster_stays\<close>)
  ultimately have s: "c \<in> set (clusters (Filter_sector X F input zvtx 1 CHR ''I'' 512 0 ?st0))"
    by simp
  have "Filter_ring X F input zvtx 1 0 ?st0
        = fold (Filter_sector X F input zvtx 1 CHR ''I'' 512) [1..<20]
            (Filter_sector X F input zvtx 1 CHR ''I'' 512 0 ?st0)"
    unfolding Filter_ring_def Let_def ring_of_def nsec_of_def nstr_of_def
    by (subst upt_conv_Cons) simp_all
  moreover have "c \<in> set (clusters (fold (Filter_sector X F input zvtx 1 CHR ''I'' 512) [1..<20]
            (Filter_sector X F input zvtx 1 CHR ''I'' 512 0 ?st0)))"
    by (rule fold_invariant [where Q = "\<lambda>x. True"]) (use s in \<open>simp_all add: cluster_stays_sector\<close>)
  ultimately have r: "c \<in> set (clusters (Filter_ring X F input zvtx 1 0 ?st0))"
    by simp
  have "Filter_detector X F input zvtx 1 ?st0 = Filter_ring X F input zvtx 1 0 ?st0"
    by (simp add: Filter_detector_def)
  then have d: "c \<in> set (clusters (Filter_detector X F input zvtx 1 ?st0))"
    using r by simp
  show ?thesis
    unfolding Filter_pass_def using d by (simp add: upt_rec cluster_stays_detector)
qed

lemma ex_double_formed:
  "ex_double \<in> set (clusters (Filter_pass ex_X ex_F ex_in_fall False (esd_of []) 0))"
  "ex_double \<in> set (clusters (Filter_pass ex_X ex_F_dead ex_in_fall False (esd_of []) 0))"
  by (rule first_strip_cluster, simp add: step_defs ex_defs ex_double_def)+

lemma ex_scanned_01: "scanned 1 0 0 0" "scanned 1 0 0 1"
  by (simp_all add: scanned_def nsec_of_def nstr_of_def)

theorem Filter_clusters_witness:
  "ex_double \<in> set (clusters (Filter_pass ex_X ex_F ex_in_fall False (esd_of []) 0))
   \<and> Multiplicity (snd (Filter ex_X ex_F ex_in_fall False (esd_of []) 0)) (1, CHR ''I'', 0, 0) = 0.8
   \<and> Multiplicity (snd (Filter ex_X ex_F ex_in_fall False (esd_of []) 0)) (1, CHR ''I'', 0, 1) = 0"
proof -
  have h: "ex_double \<in> set (clusters (Filter_pass ex_X ex_F ex_in_fall False (esd_of []) 0))"
    by (rule ex_double_formed(1))
  obtain q where q: "c_ring ex_double = ring_of q"
    and w: "\<forall>p\<in>set (strips_of ex_double). p < nstr_of q \<longrightarrow>
              Multiplicity (snd (Filter ex_X ex_F ex_in_fall False (esd_of []) 0))
                (c_det ex_double, c_ring ex_double, c_sec ex_double, p)
              = (if p = emit_strip ex_double then c_amp ex_double
                 else if s_mult (read_strip ex_X ex_F ex_in_fall 0 (c_det ex_double) (c_ring ex_double)
                           (c_sec ex_double) (nstr_of q) p) = kInvalidMult ex_X
                      then kInvalidMult ex_X else 0)"
    using Filter_clusters [OF h] by blast
  have q0: "q = 0"
    using q by (simp add: ex_double_def ring_of_def split: if_splits)
  have r: "s_mult (read_strip ex_X ex_F ex_in_fall 0 (Suc 0) CHR ''I'' 0 512 (Suc 0)) = 0.3"
    by (simp add: step_defs ex_defs)
  have k: "kInvalidMult ex_X = 1000" by (simp add: ex_X_def)
  have "Multiplicity (snd (Filter ex_X ex_F ex_in_fall False (esd_of []) 0)) (1, CHR ''I'', 0, 0) = 0.8
        \<and> Multiplicity (snd (Filter ex_X ex_F ex_in_fall False (esd_of []) 0)) (1, CHR ''I'', 0, 1) = 0"
    using w unfolding q0 by (simp add: ex_double_def strips_of_def emit_strip_def nstr_of_def r k)
  then show ?thesis using h by simp
qed

lemma ring_of_0: "ring_of 0 = CHR ''I''"
  by (simp add: ring_of_def)

lemma dead_scan:
  "Multiplicity (outp (fold (strip_step ex_X ex_F_dead ex_in_fall 0 1 (ring_of 0) 0 (nstr_of 0))
       [0..<0 + 2] ex_st)) (1, ring_of 0, 0, 0) = 0.8"
  "Multiplicity (outp (fold (strip_step ex_X ex_F_dead ex_in_fall 0 1 (ring_of 0) 0 (nstr_of 0))
       [0..<1 + 2] ex_st)) (1, ring_of 0, 0, 1) = 1000"
  by (simp_all add: upt_rec step_defs ex_defs ring_of_def nstr_of_def)

text \<open>
  The claim as stated fails where a consumed neighbour is flagged dead: with the signals
  0.5, 0.3, 0.1 and strip 1 flagged dead, strips 0 and 1 form a double stored at strip 0
  (0.8), and the output at the consumed strip 1 is \<^verbatim>\<open>kInvalidMult\<close>, not 0.
\<close>

theorem Filter_clusters_counterexample:
  "ex_double \<in> set (clusters (Filter_pass ex_X ex_F_dead ex_in_fall False (esd_of []) 0))
   \<and> strips_of ex_double = [0, 1] \<and> emit_strip ex_double = 0
   \<and> Multiplicity (snd (Filter ex_X ex_F_dead ex_in_fall False (esd_of []) 0)) (1, CHR ''I'', 0, 0) = 0.8
   \<and> Multiplicity (snd (Filter ex_X ex_F_dead ex_in_fall False (esd_of []) 0)) (1, CHR ''I'', 0, 1) = 1000"
proof -
  have "Multiplicity (snd (Filter ex_X ex_F_dead ex_in_fall False (esd_of []) 0)) (1, ring_of 0, 0, 0)
        = Multiplicity (outp (fold (strip_step ex_X ex_F_dead ex_in_fall 0 1 (ring_of 0) 0 (nstr_of 0))
            [0..<0 + 2] ex_st)) (1, ring_of 0, 0, 0)"
    unfolding Filter_def snd_conv
    by (rule pass_prefix [OF ex_st_ctl _ ex_scanned_01(1)]) (simp add: nstr_of_def)
  then have a: "Multiplicity (snd (Filter ex_X ex_F_dead ex_in_fall False (esd_of []) 0)) (1, ring_of 0, 0, 0) = 0.8"
    by (simp only: dead_scan(1))
  have "Multiplicity (snd (Filter ex_X ex_F_dead ex_in_fall False (esd_of []) 0)) (1, ring_of 0, 0, 1)
        = Multiplicity (outp (fold (strip_step ex_X ex_F_dead ex_in_fall 0 1 (ring_of 0) 0 (nstr_of 0))
            [0..<1 + 2] ex_st)) (1, ring_of 0, 0, 1)"
    unfolding Filter_def snd_conv
    by (rule pass_prefix [OF ex_st_ctl _ ex_scanned_01(2)]) (simp add: nstr_of_def)
  then have b: "Multiplicity (snd (Filter ex_X ex_F_dead ex_in_fall False (esd_of []) 0)) (1, ring_of 0, 0, 1) = 1000"
    by (simp only: dead_scan(2))
  show ?thesis
    using ex_double_formed(2) a b unfolding ring_of_0
    by (simp add: ex_double_def strips_of_def emit_strip_def)
qed

end
